theory Spec2Isabelle
  imports Main "HOL-Library.Word"
begin
unbundle bit_operations_syntax

section \<open>C strings and Arduino primitives\<close>

text \<open>
  The two sketches are Arduino C++. A C string is modelled by its characters up to the
  terminating NUL, so \<open>strlen\<close> is \<open>length\<close>, \<open>strcpy\<close> yields the source and
  \<open>strcat\<close> appends. The sizes of the destination arrays are accounted for separately, in
  the section on destination buffers, where every copy is checked against the declared size.
\<close>

type_synonym byte = "8 word"

definition digit :: "nat \<Rightarrow> char" where
  "digit d = ''0123456789'' ! d"

text \<open>\<open>itoa(value, buffer, 10)\<close> on a value that is not negative.\<close>

function itoa :: "nat \<Rightarrow> string" where
  "itoa n = (if n < 10 then [digit n] else itoa (n div 10) @ [digit (n mod 10)])"
  by pat_completeness auto
termination
  by (relation "measure id") auto

declare itoa.simps [simp del]

text \<open>
  \<open>bitRead(value, bit)\<close> is \<open>((value) >> (bit)) & 0x01\<close>, and \<open>bitWrite(value, bit, 0)\<close>
  is \<open>bitClear(value, bit)\<close>, which is \<open>(value) &= ~(1UL << (bit))\<close>.
\<close>

definition bitRead :: "byte \<Rightarrow> nat \<Rightarrow> bool" where
  "bitRead v b = (drop_bit b v AND 1 \<noteq> 0)"

definition bitClear :: "byte \<Rightarrow> nat \<Rightarrow> byte" where
  "bitClear v b = v AND NOT (push_bit b 1)"

section \<open>Settings of the sketches\<close>

definition mqttPartitionTopic :: string where
  "mqttPartitionTopic = ''dsc/Get/Partition''"

definition mqttZoneTopic :: string where
  "mqttZoneTopic = ''dsc/Get/Zone''"

definition mqttFireTopic :: string where
  "mqttFireTopic = ''dsc/Get/Fire''"

definition mqttSubscribeTopic :: string where
  "mqttSubscribeTopic = ''dsc/Set''"

definition PushMessagePrefix :: string where
  "PushMessagePrefix = ''Security system ''"

text \<open>
  Modelled from the spec: \<open>dscPartitions\<close> and \<open>dscZones\<close> are macros of the library header
  dscKeybusInterface.h, which is not among the sources; the spec numbers partitions 1..8
  and groups the 64 zones as 8 groups of 8 bits.
\<close>

definition dscPartitions :: nat where
  "dscPartitions = 8"

definition dscZones :: nat where
  "dscZones = 8"

section \<open>The state of a sketch\<close>

text \<open>
  The changed-flags a sketch resets, by the member of the \<open>dsc\<close> object that holds them.
  Zone bits are numbered \<open>zoneGroup * 8 + zoneBit\<close>.
\<close>

datatype flag =
    ArmedChanged | ExitDelayChanged | AlarmChanged | FireChanged | OpenZonesChanged
  | KeybusChanged | PowerChanged | KeypadFireAlarm | KeypadAuxAlarm | KeypadPanicAlarm
  | AlarmZonesChanged

text \<open>
  What a sketch does to the world outside its own locals, in program order: it resets a
  changed-flag of the \<open>dsc\<close> object, publishes on the MQTT client (topic, payload, retained),
  subscribes, writes keys to the panel (to the partition \<open>writePartition\<close> holds), or calls
  \<open>sendPush\<close> (prefix, message).
\<close>

datatype event =
    Clear flag nat
  | Publish string string bool
  | Subscribe string
  | PanelWrite byte string
  | Push string string

text \<open>
  The public members of the \<open>dsc\<close> object that the sketches read and write, the globals of
  the sketches, and the trace of events so far. Arrays indexed by partition hold
  \<open>dscPartitions\<close> entries, arrays indexed by zone group \<open>dscZones\<close> bytes.
\<close>

record sketch =
  statusChanged :: bool
  pauseStatus :: bool
  bufferOverflow :: bool
  accessCodePrompt :: bool
  keybusChanged :: bool
  keybusConnected :: bool
  powerChanged :: bool
  powerTrouble :: bool
  keypadFireAlarm :: bool
  keypadAuxAlarm :: bool
  keypadPanicAlarm :: bool
  disabled :: "bool list"
  armed :: "bool list"
  armedAway :: "bool list"
  armedStay :: "bool list"
  armedChanged :: "bool list"
  exitDelay :: "bool list"
  exitDelayChanged :: "bool list"
  alarm :: "bool list"
  alarmChanged :: "bool list"
  fire :: "bool list"
  fireChanged :: "bool list"
  openZonesStatusChanged :: bool
  openZones :: "byte list"
  openZonesChanged :: "byte list"
  alarmZonesStatusChanged :: bool
  alarmZones :: "byte list"
  alarmZonesChanged :: "byte list"
  writePartition :: byte
  wifiConnected :: bool
  mqttPreviousTime :: "32 word"
  trace :: "event list"

definition wf :: "sketch \<Rightarrow> bool" where
  "wf s \<longleftrightarrow>
     length (disabled s) = dscPartitions \<and>
     length (armed s) = dscPartitions \<and> length (armedAway s) = dscPartitions \<and>
     length (armedStay s) = dscPartitions \<and> length (armedChanged s) = dscPartitions \<and>
     length (exitDelay s) = dscPartitions \<and> length (exitDelayChanged s) = dscPartitions \<and>
     length (alarm s) = dscPartitions \<and> length (alarmChanged s) = dscPartitions \<and>
     length (fire s) = dscPartitions \<and> length (fireChanged s) = dscPartitions \<and>
     length (openZones s) = dscZones \<and> length (openZonesChanged s) = dscZones \<and>
     length (alarmZones s) = dscZones \<and> length (alarmZonesChanged s) = dscZones"

definition emit :: "event \<Rightarrow> sketch \<Rightarrow> sketch" where
  "emit e s = s\<lparr>trace := trace s @ [e]\<rparr>"

text \<open>The messages published in a trace, as (topic, payload).\<close>

fun publishes :: "event list \<Rightarrow> (string \<times> string) list" where
  "publishes [] = []"
| "publishes (Publish t p r # es) = (t, p) # publishes es"
| "publishes (e # es) = publishes es"

text \<open>Storing one value at each of the given indices of an array.\<close>

definition set_all :: "'a \<Rightarrow> nat list \<Rightarrow> 'a list \<Rightarrow> 'a list" where
  "set_all v ps xs = fold (\<lambda>p ys. ys[p := v]) ps xs"

section \<open>OpenHAB-MQTT: publishing the status\<close>

definition mqtt_publish :: "string \<Rightarrow> string \<Rightarrow> bool \<Rightarrow> sketch \<Rightarrow> sketch" where
  "mqtt_publish topic payload retained s = emit (Publish topic payload retained) s"

definition publishState :: "string \<Rightarrow> nat \<Rightarrow> string \<Rightarrow> sketch \<Rightarrow> sketch" where
  "publishState sourceTopic p sourceSuffix s =
     (let partitionNumber = itoa (p + 1);
          publishTopic = sourceTopic @ partitionNumber;
          currentState = partitionNumber @ sourceSuffix
      in mqtt_publish publishTopic currentState True s)"

definition armed_block :: "nat \<Rightarrow> sketch \<Rightarrow> sketch" where
  "armed_block p s =
     (if armedChanged s ! p then
        (let s1 = emit (Clear ArmedChanged p)
                    (s\<lparr>armedChanged := (armedChanged s)[p := False]\<rparr>)
         in if armed s1 ! p then
              (if armedAway s1 ! p then publishState mqttPartitionTopic p ''A'' s1
               else if armedStay s1 ! p then publishState mqttPartitionTopic p ''S'' s1
               else s1)
            else publishState mqttPartitionTopic p ''D'' s1)
      else s)"

definition exitDelay_block :: "nat \<Rightarrow> sketch \<Rightarrow> sketch" where
  "exitDelay_block p s =
     (if exitDelayChanged s ! p then
        (let s1 = emit (Clear ExitDelayChanged p)
                    (s\<lparr>exitDelayChanged := (exitDelayChanged s)[p := False]\<rparr>)
         in if exitDelay s1 ! p then publishState mqttPartitionTopic p ''P'' s1
            else if \<not> armed s1 ! p then publishState mqttPartitionTopic p ''D'' s1
            else s1)
      else s)"

definition alarm_block :: "nat \<Rightarrow> sketch \<Rightarrow> sketch" where
  "alarm_block p s =
     (if alarmChanged s ! p then
        (let s1 = emit (Clear AlarmChanged p)
                    (s\<lparr>alarmChanged := (alarmChanged s)[p := False]\<rparr>)
         in if alarm s1 ! p then publishState mqttPartitionTopic p ''T'' s1
            else s1)
      else s)"

definition fire_block :: "nat \<Rightarrow> sketch \<Rightarrow> sketch" where
  "fire_block p s =
     (if fireChanged s ! p then
        (let s1 = emit (Clear FireChanged p)
                    (s\<lparr>fireChanged := (fireChanged s)[p := False]\<rparr>)
         in if fire s1 ! p then publishState mqttFireTopic p ''1'' s1
            else publishState mqttFireTopic p ''0'' s1)
      else s)"

text \<open>The body of the loop over the partitions, for one partition (the loop variable \<open>partition\<close> is \<open>p\<close>).\<close>

definition partition_step :: "nat \<Rightarrow> sketch \<Rightarrow> sketch" where
  "partition_step p s =
     fire_block p (alarm_block p (exitDelay_block p (armed_block p s)))"

definition partitions_loop :: "sketch \<Rightarrow> sketch" where
  "partitions_loop s = fold partition_step [0..<dscPartitions] s"

text \<open>The body of the two nested loops over the zones, for one bit of one group.\<close>

definition zone_step :: "nat \<Rightarrow> nat \<Rightarrow> sketch \<Rightarrow> sketch" where
  "zone_step zoneGroup zoneBit s =
     (if bitRead (openZonesChanged s ! zoneGroup) zoneBit then
        (let s1 = emit (Clear OpenZonesChanged (zoneGroup * 8 + zoneBit))
                    (s\<lparr>openZonesChanged :=
                         (openZonesChanged s)[zoneGroup := bitClear (openZonesChanged s ! zoneGroup) zoneBit]\<rparr>);
             zone = itoa (zoneBit + 1 + zoneGroup * 8);
             zonePublishTopic = mqttZoneTopic @ zone
         in if bitRead (openZones s1 ! zoneGroup) zoneBit
            then mqtt_publish zonePublishTopic ''1'' True s1
            else mqtt_publish zonePublishTopic ''0'' True s1)
      else s)"

definition zone_group_loop :: "nat \<Rightarrow> sketch \<Rightarrow> sketch" where
  "zone_group_loop zoneGroup s = fold (zone_step zoneGroup) [0..<8] s"

definition zones_scan :: "sketch \<Rightarrow> sketch" where
  "zones_scan s = fold zone_group_loop [0..<dscZones] s"

definition zones_block :: "sketch \<Rightarrow> sketch" where
  "zones_block s =
     (if openZonesStatusChanged s then zones_scan (s\<lparr>openZonesStatusChanged := False\<rparr>) else s)"

text \<open>
  The body of \<open>if (dsc.statusChanged)\<close> in \<open>loop()\<close>, after the flag is reset; the access
  code is the sketch's setting \<open>accessCode\<close>. The serial print of the buffer overflow
  is not an event of the trace.
\<close>

definition status_pass :: "string \<Rightarrow> sketch \<Rightarrow> sketch" where
  "status_pass accessCode s =
     (let s1 = (if bufferOverflow s then s\<lparr>bufferOverflow := False\<rparr> else s);
          s2 = (if accessCodePrompt s1
                then emit (PanelWrite (writePartition s1) accessCode) (s1\<lparr>accessCodePrompt := False\<rparr>)
                else s1);
          s3 = partitions_loop s2;
          s4 = zones_block s3
      in emit (Subscribe mqttSubscribeTopic) s4)"

text \<open>
  \<open>loop()\<close> after \<open>mqttHandle()\<close> and \<open>dsc.loop()\<close>, which belong to the MQTT client and to
  the panel decoder.
\<close>

definition loop_status :: "string \<Rightarrow> sketch \<Rightarrow> sketch" where
  "loop_status accessCode s =
     (if statusChanged s then status_pass accessCode (s\<lparr>statusChanged := False\<rparr>) else s)"

section \<open>OpenHAB-MQTT: commands and the connection\<close>

text \<open>
  \<open>dsc.write\<close> of a key or a string of keys, to the partition \<open>writePartition\<close> holds.
\<close>

definition dsc_write :: "string \<Rightarrow> sketch \<Rightarrow> sketch" where
  "dsc_write keys s = emit (PanelWrite (writePartition s) keys) s"

text \<open>
  \<open>mqttCallback\<close>. \<open>payload\<close> is the memory at the pointer the client hands over, byte
  by byte, and \<open>len\<close> is the parameter \<open>length\<close>, the number of bytes of the message.
  The callback casts \<open>length\<close> away and reads \<open>payload[0]\<close> and \<open>payload[payloadIndex]\<close>
  whatever it is, so for a message shorter than that the byte read is the one the client's
  buffer holds after the message. The bytes 0x31 to 0x38 are the digits 1 to 8, and 0x53,
  0x41, 0x44 are the letters S, A, D.
\<close>

definition mqttCallback :: "string \<Rightarrow> (nat \<Rightarrow> byte) \<Rightarrow> nat \<Rightarrow> sketch \<Rightarrow> sketch" where
  "mqttCallback accessCode payload len s =
     (let (p, payloadIndex) =
            (if payload 0 \<ge> 0x31 \<and> payload 0 \<le> 0x38 then (payload 0 - 49, 1) else (0 :: byte, 0 :: nat))
      in if payload payloadIndex = 0x53 \<and> \<not> armed s ! unat p \<and> \<not> exitDelay s ! unat p
         then dsc_write ''s'' (s\<lparr>writePartition := p + 1\<rparr>)
         else if payload payloadIndex = 0x41 \<and> \<not> armed s ! unat p \<and> \<not> exitDelay s ! unat p
         then dsc_write ''w'' (s\<lparr>writePartition := p + 1\<rparr>)
         else if payload payloadIndex = 0x44 \<and> (armed s ! unat p \<or> exitDelay s ! unat p)
         then dsc_write accessCode (s\<lparr>writePartition := p + 1\<rparr>)
         else s)"

text \<open>The memory that holds the given bytes and then zeros.\<close>

definition bytes :: "byte list \<Rightarrow> nat \<Rightarrow> byte" where
  "bytes bs i = (if i < length bs then bs ! i else 0)"

text \<open>
  Modelled from the spec: \<open>resetStatus\<close> is a member of the library class, whose source
  is not among the sources. The sketch calls it with the comment "Resets the state of all
  status components as changed to get the current status", and the spec has it set the
  changed-flag of every tracked fact, so that the next pass republishes the complete
  current state. The keypad alarm members are events with no changed-flag of their own and
  are left as they are.
\<close>

definition resetStatus :: "sketch \<Rightarrow> sketch" where
  "resetStatus s =
     s\<lparr>statusChanged := True, keybusChanged := True, powerChanged := True,
       armedChanged := set_all True [0..<dscPartitions] (armedChanged s),
       exitDelayChanged := set_all True [0..<dscPartitions] (exitDelayChanged s),
       alarmChanged := set_all True [0..<dscPartitions] (alarmChanged s),
       fireChanged := set_all True [0..<dscPartitions] (fireChanged s),
       openZonesStatusChanged := True,
       openZonesChanged := set_all 0xFF [0..<dscZones] (openZonesChanged s),
       alarmZonesStatusChanged := True,
       alarmZonesChanged := set_all 0xFF [0..<dscZones] (alarmZonesChanged s)\<rparr>"

text \<open>
  \<open>mqttConnect\<close>: \<open>connect_ok\<close> is what \<open>mqtt.connect\<close> returns and \<open>connected\<close> what
  \<open>mqtt.connected()\<close> returns afterwards.
\<close>

definition mqttConnect :: "bool \<Rightarrow> bool \<Rightarrow> sketch \<Rightarrow> bool \<times> sketch" where
  "mqttConnect connect_ok connected s = (connected, if connect_ok then resetStatus s else s)"

text \<open>
  \<open>mqttHandle\<close>: \<open>is_connected\<close> is \<open>mqtt.connected()\<close> on entry and \<open>now\<close> is
  \<open>millis()\<close>, an unsigned long of 32 bits. While connected the sketch only calls
  \<open>mqtt.loop()\<close>, the client's own service.
\<close>

definition mqttHandle :: "bool \<Rightarrow> 32 word \<Rightarrow> bool \<Rightarrow> bool \<Rightarrow> sketch \<Rightarrow> sketch" where
  "mqttHandle is_connected now connect_ok connected s =
     (if \<not> is_connected then
        (if now - mqttPreviousTime s > 5000 then
           (let s1 = s\<lparr>mqttPreviousTime := now\<rparr>;
                (r, s2) = mqttConnect connect_ok connected s1
            in if r then s2\<lparr>mqttPreviousTime := 0\<rparr> else s2)
         else s)
      else s)"

section \<open>OpenHAB-MQTT: the destination buffers\<close>

text \<open>
  The C string functions on a destination array of a declared size \<open>cap\<close>. A copy that needs
  more bytes than the array has, the terminating NUL included, writes past its end; the
  model stops there with the number of bytes needed and the size of the array.
\<close>

datatype overrun = Overrun nat nat

definition strcpy_into :: "nat \<Rightarrow> string \<Rightarrow> overrun + string" where
  "strcpy_into cap src =
     (if length src + 1 \<le> cap then Inr src else Inl (Overrun (length src + 1) cap))"

definition strcat_into :: "nat \<Rightarrow> string \<Rightarrow> string \<Rightarrow> overrun + string" where
  "strcat_into cap dest src =
     (if length dest + length src + 1 \<le> cap then Inr (dest @ src)
      else Inl (Overrun (length dest + length src + 1) cap))"

definition itoa_into :: "nat \<Rightarrow> nat \<Rightarrow> overrun + string" where
  "itoa_into cap n = strcpy_into cap (itoa n)"

text \<open>
  \<open>publishState\<close> with its three arrays: \<open>publishTopic[strlen(sourceTopic) + 1]\<close>,
  \<open>partitionNumber[2]\<close> and \<open>currentState[strlen(sourceSuffix) + 1]\<close>. The result is the
  topic and the payload handed to \<open>mqtt.publish\<close>.
\<close>

definition publishState_buffers :: "string \<Rightarrow> nat \<Rightarrow> string \<Rightarrow> overrun + (string \<times> string)" where
  "publishState_buffers sourceTopic p sourceSuffix =
     (case itoa_into 2 (p + 1) of
        Inl e \<Rightarrow> Inl e
      | Inr partitionNumber \<Rightarrow>
     (case strcpy_into (length sourceTopic + 1) sourceTopic of
        Inl e \<Rightarrow> Inl e
      | Inr t0 \<Rightarrow>
     (case strcat_into (length sourceTopic + 1) t0 partitionNumber of
        Inl e \<Rightarrow> Inl e
      | Inr publishTopic \<Rightarrow>
     (case strcpy_into (length sourceSuffix + 1) partitionNumber of
        Inl e \<Rightarrow> Inl e
      | Inr c0 \<Rightarrow>
     (case strcat_into (length sourceSuffix + 1) c0 sourceSuffix of
        Inl e \<Rightarrow> Inl e
      | Inr currentState \<Rightarrow> Inr (publishTopic, currentState))))))"

text \<open>
  The topic of a zone in the scan, with its two arrays
  \<open>zonePublishTopic[strlen(mqttZoneTopic) + 2]\<close> and \<open>zone[3]\<close>.
\<close>

definition zone_topic_buffers :: "nat \<Rightarrow> nat \<Rightarrow> overrun + string" where
  "zone_topic_buffers zoneGroup zoneBit =
     (case strcpy_into (length mqttZoneTopic + 2) mqttZoneTopic of
        Inl e \<Rightarrow> Inl e
      | Inr t0 \<Rightarrow>
     (case itoa_into 3 (zoneBit + 1 + zoneGroup * 8) of
        Inl e \<Rightarrow> Inl e
      | Inr zone \<Rightarrow> strcat_into (length mqttZoneTopic + 2) t0 zone))"

section \<open>Twilio SMS: sending the status\<close>

text \<open>
  Twilio.ino holds two versions of the sketch. The loop modelled here is that of the
  later one, Twilio SMS Notification 1.2, which checks the WiFi link and passes over
  disabled partitions; \<open>sendPush\<close> is the same in both.
\<close>

text \<open>
  A call of \<open>sendPush\<close> from the loop, which ignores the result. The exchange with the
  server is \<open>sendPush\<close> below. While it waits for the response \<open>sendPush\<close> calls
  \<open>dsc.loop()\<close>; what the decoder then changes is the panel's doing and not part of the
  pass.
\<close>

definition push :: "string \<Rightarrow> string \<Rightarrow> sketch \<Rightarrow> sketch" where
  "push prefix pushMessage s = emit (Push prefix pushMessage) s"

definition appendPartition :: "nat \<Rightarrow> string \<Rightarrow> string" where
  "appendPartition sourceNumber pushMessage = pushMessage @ itoa (sourceNumber + 1)"

text \<open>
  The reconnection check at the head of \<open>loop()\<close>; \<open>st1\<close> and \<open>st2\<close> tell whether the
  two reads of \<open>WiFi.status()\<close> yield \<open>WL_CONNECTED\<close>.
\<close>

definition wifi_block :: "bool \<Rightarrow> bool \<Rightarrow> sketch \<Rightarrow> sketch" where
  "wifi_block st1 st2 s =
     (if \<not> wifiConnected s \<and> st1
      then s\<lparr>wifiConnected := True, pauseStatus := False, statusChanged := True\<rparr>
      else if \<not> st2 \<and> wifiConnected s
      then s\<lparr>wifiConnected := False, pauseStatus := True\<rparr>
      else s)"

definition keybus_block :: "sketch \<Rightarrow> sketch" where
  "keybus_block s =
     (if keybusChanged s then
        (let s1 = emit (Clear KeybusChanged 0) (s\<lparr>keybusChanged := False\<rparr>)
         in if keybusConnected s1 then push PushMessagePrefix ''connected'' s1
            else push PushMessagePrefix ''disconnected'' s1)
      else s)"

text \<open>
  The blocks of the loop over the partitions. When a partition is armed with neither the
  away nor the stay mode, the array \<open>pushMessage\<close> is not initialised; \<open>stale\<close> is what it
  then holds before its first NUL.
\<close>

definition tw_armed_block :: "string \<Rightarrow> nat \<Rightarrow> sketch \<Rightarrow> sketch" where
  "tw_armed_block stale p s =
     (if armedChanged s ! p then
        (let s1 = emit (Clear ArmedChanged p) (s\<lparr>armedChanged := (armedChanged s)[p := False]\<rparr>)
         in if armed s1 ! p then
              (let pushMessage =
                     (if armedAway s1 ! p then ''armed away: partition ''
                      else if armedStay s1 ! p then ''armed stay: partition ''
                      else stale)
               in push PushMessagePrefix (appendPartition p pushMessage) s1)
            else push PushMessagePrefix (appendPartition p ''disarmed: partition '') s1)
      else s)"

definition tw_alarm_block :: "nat \<Rightarrow> sketch \<Rightarrow> sketch" where
  "tw_alarm_block p s =
     (if alarmChanged s ! p then
        (let s1 = emit (Clear AlarmChanged p) (s\<lparr>alarmChanged := (alarmChanged s)[p := False]\<rparr>);
             pushMessage = appendPartition p ''in alarm: Partition ''
         in if alarm s1 ! p then push PushMessagePrefix pushMessage s1
            else push PushMessagePrefix ''disarmed after alarm'' s1)
      else s)"

definition tw_fire_block :: "nat \<Rightarrow> sketch \<Rightarrow> sketch" where
  "tw_fire_block p s =
     (if fireChanged s ! p then
        (let s1 = emit (Clear FireChanged p) (s\<lparr>fireChanged := (fireChanged s)[p := False]\<rparr>);
             pushMessage = appendPartition p ''fire alarm: Partition ''
         in if fire s1 ! p then push PushMessagePrefix pushMessage s1
            else push PushMessagePrefix ''fire alarm restored'' s1)
      else s)"

text \<open>The body of the loop over the partitions; \<open>continue\<close> leaves the state as it is.\<close>

definition tw_partition_step :: "string \<Rightarrow> nat \<Rightarrow> sketch \<Rightarrow> sketch" where
  "tw_partition_step stale p s =
     (if disabled s ! p then s
      else tw_fire_block p (tw_alarm_block p (tw_armed_block stale p s)))"

definition tw_partitions_loop :: "string \<Rightarrow> sketch \<Rightarrow> sketch" where
  "tw_partitions_loop stale s = fold (tw_partition_step stale) [0..<dscPartitions] s"

definition tw_zone_step :: "nat \<Rightarrow> nat \<Rightarrow> sketch \<Rightarrow> sketch" where
  "tw_zone_step zoneGroup zoneBit s =
     (if bitRead (alarmZonesChanged s ! zoneGroup) zoneBit then
        (let s1 = emit (Clear AlarmZonesChanged (zoneGroup * 8 + zoneBit))
                    (s\<lparr>alarmZonesChanged :=
                         (alarmZonesChanged s)[zoneGroup := bitClear (alarmZonesChanged s ! zoneGroup) zoneBit]\<rparr>)
         in if bitRead (alarmZones s1 ! zoneGroup) zoneBit
            then push '''' (''Security zone alarm: '' @ itoa (zoneBit + 1 + zoneGroup * 8)) s1
            else push '''' (''Security zone alarm restored: '' @ itoa (zoneBit + 1 + zoneGroup * 8)) s1)
      else s)"

definition tw_zones_block :: "sketch \<Rightarrow> sketch" where
  "tw_zones_block s =
     (if alarmZonesStatusChanged s
      then fold (\<lambda>zoneGroup. fold (tw_zone_step zoneGroup) [0..<8]) [0..<dscZones]
             (s\<lparr>alarmZonesStatusChanged := False\<rparr>)
      else s)"

definition power_block :: "sketch \<Rightarrow> sketch" where
  "power_block s =
     (if powerChanged s then
        (let s1 = emit (Clear PowerChanged 0) (s\<lparr>powerChanged := False\<rparr>)
         in if powerTrouble s1 then push PushMessagePrefix ''AC power trouble'' s1
            else push PushMessagePrefix ''AC power restored'' s1)
      else s)"

definition keypad_blocks :: "sketch \<Rightarrow> sketch" where
  "keypad_blocks s =
     (let s1 = (if keypadFireAlarm s
                then push PushMessagePrefix ''fire alarm button pressed''
                       (emit (Clear KeypadFireAlarm 0) (s\<lparr>keypadFireAlarm := False\<rparr>))
                else s);
          s2 = (if keypadAuxAlarm s1
                then push PushMessagePrefix ''aux alarm button pressed''
                       (emit (Clear KeypadAuxAlarm 0) (s1\<lparr>keypadAuxAlarm := False\<rparr>))
                else s1)
      in if keypadPanicAlarm s2
         then push PushMessagePrefix ''panic alarm button pressed''
                (emit (Clear KeypadPanicAlarm 0) (s2\<lparr>keypadPanicAlarm := False\<rparr>))
         else s2)"

text \<open>
  The body of \<open>if (dsc.statusChanged)\<close> in the loop of the Twilio sketch, after the flag
  is reset, and the loop from the reconnection check on, without the serial input.
\<close>

definition tw_status_pass :: "string \<Rightarrow> sketch \<Rightarrow> sketch" where
  "tw_status_pass stale s =
     (let s1 = (if bufferOverflow s then s\<lparr>bufferOverflow := False\<rparr> else s);
          s2 = keybus_block s1;
          s3 = tw_partitions_loop stale s2;
          s4 = tw_zones_block s3;
          s5 = power_block s4
      in keypad_blocks s5)"

definition tw_loop_status :: "string \<Rightarrow> sketch \<Rightarrow> sketch" where
  "tw_loop_status stale s =
     (if statusChanged s then tw_status_pass stale (s\<lparr>statusChanged := False\<rparr>) else s)"

section \<open>Twilio: the exchange with the server\<close>

text \<open>
  The settings of Secrets.h, which is the user's and not among the sources.
\<close>

record secrets =
  AccountSID :: string
  Base64EncodedAuth :: string
  From :: string
  To :: string

text \<open>
  What the network does during one call of \<open>sendPush\<close>: whether \<open>pushClient.connect\<close>
  succeeds; the value of \<open>millis()\<close> when the wait begins; the values of \<open>millis()\<close> read
  in the successive turns of the wait loop, one for each turn in which
  \<open>pushClient.available()\<close> is still 0; and the bytes the client then holds. \<open>millis()\<close>
  is an unsigned long of 32 bits.
\<close>

record network =
  connects :: bool
  started :: "32 word"
  waits :: "32 word list"
  response :: string

text \<open>\<open>Print::println\<close> ends the line with carriage return and line feed.\<close>

definition CRLF :: string where
  "CRLF = [CHR 0x0D, CHR 0x0A]"

definition content_length :: "secrets \<Rightarrow> string \<Rightarrow> string \<Rightarrow> nat" where
  "content_length sec prefix pushMessage =
     length (To sec) + length (From sec) + length prefix + length pushMessage + 18"

text \<open>The bytes \<open>sendPush\<close> writes up to and including the empty line, and those after it.\<close>

definition request_head :: "secrets \<Rightarrow> string \<Rightarrow> string \<Rightarrow> string" where
  "request_head sec prefix pushMessage =
     ''POST https://api.twilio.com/2010-04-01/Accounts/'' @ AccountSID sec @
     ''/Messages.json HTTP/1.1'' @ CRLF @
     ''Authorization: Basic '' @ Base64EncodedAuth sec @ CRLF @
     ''Host: api.twilio.com'' @ CRLF @
     ''User-Agent: ESP8266'' @ CRLF @
     ''Accept: */*'' @ CRLF @
     ''Content-Type: application/x-www-form-urlencoded'' @ CRLF @
     ''Content-Length: '' @ itoa (content_length sec prefix pushMessage) @ CRLF @
     ''Connection: Close'' @ CRLF @
     CRLF"

definition request_body :: "secrets \<Rightarrow> string \<Rightarrow> string \<Rightarrow> string" where
  "request_body sec prefix pushMessage =
     ''To=+'' @ To sec @ ''&From=+'' @ From sec @ ''&Body='' @ prefix @ pushMessage @ CRLF"

text \<open>
  The wait for the response: each turn with nothing available reads the clock and gives
  up when more than 3000 ms have passed; the subtraction is that of unsigned long.
  \<open>True\<close> means that bytes are available.
\<close>

fun await_response :: "32 word \<Rightarrow> 32 word list \<Rightarrow> bool" where
  "await_response previousMillis [] = True"
| "await_response previousMillis (now # later) =
     (if now - previousMillis > 3000 then False else await_response previousMillis later)"

text \<open>\<open>pushClient.read()\<close>: the next byte, or -1 when none is available.\<close>

fun client_read :: "string \<Rightarrow> int \<times> string" where
  "client_read [] = (- 1, [])"
| "client_read (c # cs) = (of_char c, cs)"

text \<open>Reading the response until the first space, or until nothing is available.\<close>

fun skip_to_space :: "string \<Rightarrow> string" where
  "skip_to_space [] = []"
| "skip_to_space (c # cs) = (if (of_char c :: int) = 32 then cs else skip_to_space cs)"

text \<open>
  \<open>char statusCode = pushClient.read()\<close> keeps the low 8 bits of the int that \<open>read\<close>
  returns; \<open>statusCode\<close> is the number of that char, from 0 to 255, and the character 2 is 50.
\<close>

definition statusCode :: "string \<Rightarrow> int" where
  "statusCode rx = fst (client_read (skip_to_space rx)) mod 256"

text \<open>
  \<open>sendPush\<close>: the value returned and the bytes written to the server. The two versions of
  the sketch differ in the panel call of the wait loop and in a serial message, which are
  not part of this exchange.
\<close>

definition sendPush :: "secrets \<Rightarrow> network \<Rightarrow> string \<Rightarrow> string \<Rightarrow> bool \<times> string" where
  "sendPush sec net prefix pushMessage =
     (if \<not> connects net then (False, [])
      else
        (let sent = request_head sec prefix pushMessage @ request_body sec prefix pushMessage
         in if \<not> await_response (started net) (waits net) then (False, sent)
            else if statusCode (response net) = 50 then (True, sent)
            else (False, sent)))"

section \<open>The events a pass owes\<close>

text \<open>
  For each block of the loop body, the events it appends to the trace, read off the state
  before the block. The lemmas below show that the blocks append exactly these.
\<close>

definition armed_events :: "nat \<Rightarrow> sketch \<Rightarrow> event list" where
  "armed_events p s =
     (if armedChanged s ! p then
        Clear ArmedChanged p #
        (if armed s ! p then
           (if armedAway s ! p then [Publish (mqttPartitionTopic @ itoa (p + 1)) (itoa (p + 1) @ ''A'') True]
            else if armedStay s ! p then [Publish (mqttPartitionTopic @ itoa (p + 1)) (itoa (p + 1) @ ''S'') True]
            else [])
         else [Publish (mqttPartitionTopic @ itoa (p + 1)) (itoa (p + 1) @ ''D'') True])
      else [])"

definition exitDelay_events :: "nat \<Rightarrow> sketch \<Rightarrow> event list" where
  "exitDelay_events p s =
     (if exitDelayChanged s ! p then
        Clear ExitDelayChanged p #
        (if exitDelay s ! p then [Publish (mqttPartitionTopic @ itoa (p + 1)) (itoa (p + 1) @ ''P'') True]
         else if \<not> armed s ! p then [Publish (mqttPartitionTopic @ itoa (p + 1)) (itoa (p + 1) @ ''D'') True]
         else [])
      else [])"

definition alarm_events :: "nat \<Rightarrow> sketch \<Rightarrow> event list" where
  "alarm_events p s =
     (if alarmChanged s ! p then
        Clear AlarmChanged p #
        (if alarm s ! p then [Publish (mqttPartitionTopic @ itoa (p + 1)) (itoa (p + 1) @ ''T'') True]
         else [])
      else [])"

definition fire_events :: "nat \<Rightarrow> sketch \<Rightarrow> event list" where
  "fire_events p s =
     (if fireChanged s ! p then
        [Clear FireChanged p,
         Publish (mqttFireTopic @ itoa (p + 1)) (itoa (p + 1) @ (if fire s ! p then ''1'' else ''0'')) True]
      else [])"

definition partition_events :: "nat \<Rightarrow> sketch \<Rightarrow> event list" where
  "partition_events p s = armed_events p s @ exitDelay_events p s @ alarm_events p s @ fire_events p s"

definition zone_events :: "nat \<Rightarrow> nat \<Rightarrow> sketch \<Rightarrow> event list" where
  "zone_events g b s =
     (if bit (openZonesChanged s ! g) b then
        [Clear OpenZonesChanged (g * 8 + b),
         Publish (mqttZoneTopic @ itoa (g * 8 + b + 1)) (if bit (openZones s ! g) b then ''1'' else ''0'') True]
      else [])"

definition group_events :: "nat \<Rightarrow> sketch \<Rightarrow> event list" where
  "group_events g s = concat (map (\<lambda>b. zone_events g b s) [0..<8])"

definition prompt_events :: "string \<Rightarrow> sketch \<Rightarrow> event list" where
  "prompt_events accessCode s =
     (if accessCodePrompt s then [PanelWrite (writePartition s) accessCode] else [])"

definition zones_events :: "sketch \<Rightarrow> event list" where
  "zones_events s =
     (if openZonesStatusChanged s then concat (map (\<lambda>g. group_events g s) [0..<dscZones]) else [])"

definition pass_events :: "string \<Rightarrow> sketch \<Rightarrow> event list" where
  "pass_events accessCode s =
     prompt_events accessCode s @ concat (map (\<lambda>p. partition_events p s) [0..<dscPartitions]) @
     zones_events s @ [Subscribe mqttSubscribeTopic]"

text \<open>The events the blocks of the Twilio loop append, read off the state before the block.\<close>

definition tw_armed_events :: "string \<Rightarrow> nat \<Rightarrow> sketch \<Rightarrow> event list" where
  "tw_armed_events stale p s =
     (if armedChanged s ! p then
        [Clear ArmedChanged p,
         Push PushMessagePrefix
           (if armed s ! p then
              appendPartition p
                (if armedAway s ! p then ''armed away: partition ''
                 else if armedStay s ! p then ''armed stay: partition ''
                 else stale)
            else appendPartition p ''disarmed: partition '')]
      else [])"

definition tw_alarm_events :: "nat \<Rightarrow> sketch \<Rightarrow> event list" where
  "tw_alarm_events p s =
     (if alarmChanged s ! p then
        [Clear AlarmChanged p,
         Push PushMessagePrefix
           (if alarm s ! p then appendPartition p ''in alarm: Partition '' else ''disarmed after alarm'')]
      else [])"

definition tw_fire_events :: "nat \<Rightarrow> sketch \<Rightarrow> event list" where
  "tw_fire_events p s =
     (if fireChanged s ! p then
        [Clear FireChanged p,
         Push PushMessagePrefix
           (if fire s ! p then appendPartition p ''fire alarm: Partition '' else ''fire alarm restored'')]
      else [])"

definition tw_partition_events :: "string \<Rightarrow> nat \<Rightarrow> sketch \<Rightarrow> event list" where
  "tw_partition_events stale p s =
     (if disabled s ! p then []
      else tw_armed_events stale p s @ tw_alarm_events p s @ tw_fire_events p s)"

text \<open>The partitions that are not disabled, in the order of the loop.\<close>

definition enabled :: "sketch \<Rightarrow> nat list" where
  "enabled s = [p \<leftarrow> [0..<dscPartitions]. \<not> disabled s ! p]"

definition keybus_events :: "sketch \<Rightarrow> event list" where
  "keybus_events s =
     (if keybusChanged s then
        [Clear KeybusChanged 0,
         Push PushMessagePrefix (if keybusConnected s then ''connected'' else ''disconnected'')]
      else [])"

definition tw_zone_events :: "nat \<Rightarrow> nat \<Rightarrow> sketch \<Rightarrow> event list" where
  "tw_zone_events g b s =
     (if bit (alarmZonesChanged s ! g) b then
        [Clear AlarmZonesChanged (g * 8 + b),
         Push ''''
           ((if bit (alarmZones s ! g) b then ''Security zone alarm: ''
             else ''Security zone alarm restored: '') @ itoa (g * 8 + b + 1))]
      else [])"

definition tw_group_events :: "nat \<Rightarrow> sketch \<Rightarrow> event list" where
  "tw_group_events g s = concat (map (\<lambda>b. tw_zone_events g b s) [0..<8])"

definition tw_zones_events :: "sketch \<Rightarrow> event list" where
  "tw_zones_events s =
     (if alarmZonesStatusChanged s then concat (map (\<lambda>g. tw_group_events g s) [0..<dscZones])
      else [])"

definition power_events :: "sketch \<Rightarrow> event list" where
  "power_events s =
     (if powerChanged s then
        [Clear PowerChanged 0,
         Push PushMessagePrefix (if powerTrouble s then ''AC power trouble'' else ''AC power restored'')]
      else [])"

definition keypad_events :: "sketch \<Rightarrow> event list" where
  "keypad_events s =
     (if keypadFireAlarm s
      then [Clear KeypadFireAlarm 0, Push PushMessagePrefix ''fire alarm button pressed''] else []) @
     (if keypadAuxAlarm s
      then [Clear KeypadAuxAlarm 0, Push PushMessagePrefix ''aux alarm button pressed''] else []) @
     (if keypadPanicAlarm s
      then [Clear KeypadPanicAlarm 0, Push PushMessagePrefix ''panic alarm button pressed''] else [])"

definition tw_pass_events :: "string \<Rightarrow> sketch \<Rightarrow> event list" where
  "tw_pass_events stale s =
     keybus_events s @ concat (map (\<lambda>p. tw_partition_events stale p s) [0..<dscPartitions]) @
     tw_zones_events s @ power_events s @ keypad_events s"

section \<open>The discipline of the changed-flags\<close>

text \<open>Whether a changed-flag is set in a state.\<close>

fun flag_set :: "sketch \<Rightarrow> flag \<Rightarrow> nat \<Rightarrow> bool" where
  "flag_set s ArmedChanged n = armedChanged s ! n"
| "flag_set s ExitDelayChanged n = exitDelayChanged s ! n"
| "flag_set s AlarmChanged n = alarmChanged s ! n"
| "flag_set s FireChanged n = fireChanged s ! n"
| "flag_set s OpenZonesChanged n = bit (openZonesChanged s ! (n div 8)) (n mod 8)"
| "flag_set s KeybusChanged n = keybusChanged s"
| "flag_set s PowerChanged n = powerChanged s"
| "flag_set s KeypadFireAlarm n = keypadFireAlarm s"
| "flag_set s KeypadAuxAlarm n = keypadAuxAlarm s"
| "flag_set s KeypadPanicAlarm n = keypadPanicAlarm s"
| "flag_set s AlarmZonesChanged n = bit (alarmZonesChanged s ! (n div 8)) (n mod 8)"

text \<open>
  The guards of the OpenHAB-MQTT loop under which a flag is reset and nothing is
  published: armed with neither the away nor the stay mode, exit delay over on an armed
  partition, alarm off.
\<close>

fun silent :: "sketch \<Rightarrow> flag \<Rightarrow> nat \<Rightarrow> bool" where
  "silent s ArmedChanged n = (armed s ! n \<and> \<not> armedAway s ! n \<and> \<not> armedStay s ! n)"
| "silent s ExitDelayChanged n = (\<not> exitDelay s ! n \<and> armed s ! n)"
| "silent s AlarmChanged n = (\<not> alarm s ! n)"
| "silent s f n = False"

text \<open>The topic the OpenHAB-MQTT loop publishes a fact on.\<close>

fun flag_topic :: "flag \<Rightarrow> nat \<Rightarrow> string" where
  "flag_topic FireChanged n = mqttFireTopic @ itoa (n + 1)"
| "flag_topic OpenZonesChanged n = mqttZoneTopic @ itoa (n + 1)"
| "flag_topic f n = mqttPartitionTopic @ itoa (n + 1)"

text \<open>
  A trace keeps the discipline over a state when every publish comes right after the
  reset of a flag that is set in the state and not silent, on the topic of that flag, and
  every other reset is of a flag that is set and silent.
\<close>

fun disciplined :: "sketch \<Rightarrow> event list \<Rightarrow> bool" where
  "disciplined s [] = True"
| "disciplined s (Clear f n # Publish t pl r # es) =
     (flag_set s f n \<and> \<not> silent s f n \<and> t = flag_topic f n \<and> disciplined s es)"
| "disciplined s (Clear f n # es) = (flag_set s f n \<and> silent s f n \<and> disciplined s es)"
| "disciplined s (Publish t pl r # es) = False"
| "disciplined s (e # es) = disciplined s es"

text \<open>The flags a trace resets.\<close>

fun clears :: "event list \<Rightarrow> (flag \<times> nat) list" where
  "clears [] = []"
| "clears (Clear f n # es) = (f, n) # clears es"
| "clears (e # es) = clears es"

text \<open>The flags of the partitions and of the zones, in the order in which the loop visits them.\<close>

definition partition_flags :: "(flag \<times> nat) list" where
  "partition_flags =
     concat (map (\<lambda>p. [(ArmedChanged, p), (ExitDelayChanged, p), (AlarmChanged, p), (FireChanged, p)])
       [0..<dscPartitions])"

definition zone_flags :: "(flag \<times> nat) list" where
  "zone_flags = concat (map (\<lambda>g. map (\<lambda>b. (OpenZonesChanged, g * 8 + b)) [0..<8]) [0..<dscZones])"

text \<open>
  A trace of the Twilio loop keeps the discipline when it consists of resets of a flag,
  each followed at once by a call of \<open>sendPush\<close>, and of nothing else.
\<close>

fun attempted :: "event list \<Rightarrow> bool" where
  "attempted [] = True"
| "attempted (Clear f n # Push a b # es) = attempted es"
| "attempted es = False"

text \<open>The flags of the Twilio loop, in the order in which the loop visits them.\<close>

definition tw_flags :: "(flag \<times> nat) list" where
  "tw_flags =
     (KeybusChanged, 0) #
     concat (map (\<lambda>p. [(ArmedChanged, p), (AlarmChanged, p), (FireChanged, p)]) [0..<dscPartitions]) @
     concat (map (\<lambda>g. map (\<lambda>b. (AlarmZonesChanged, g * 8 + b)) [0..<8]) [0..<dscZones]) @
     [(PowerChanged, 0), (KeypadFireAlarm, 0), (KeypadAuxAlarm, 0), (KeypadPanicAlarm, 0)]"

text \<open>
  The flags the Twilio loop gets to: those that are set, of partitions that are not
  disabled, and the zone bits only when \<open>alarmZonesStatusChanged\<close> is set.
\<close>

fun tw_consumed :: "sketch \<Rightarrow> flag \<times> nat \<Rightarrow> bool" where
  "tw_consumed s (ArmedChanged, n) = (\<not> disabled s ! n \<and> armedChanged s ! n)"
| "tw_consumed s (AlarmChanged, n) = (\<not> disabled s ! n \<and> alarmChanged s ! n)"
| "tw_consumed s (FireChanged, n) = (\<not> disabled s ! n \<and> fireChanged s ! n)"
| "tw_consumed s (AlarmZonesChanged, n) = (alarmZonesStatusChanged s \<and> flag_set s AlarmZonesChanged n)"
| "tw_consumed s (f, n) = flag_set s f n"

section \<open>The state of one partition\<close>

text \<open>Everything the \<open>dsc\<close> object holds about one partition.\<close>

definition part_view :: "nat \<Rightarrow> sketch \<Rightarrow> bool list" where
  "part_view p s =
     [disabled s ! p, armed s ! p, armedAway s ! p, armedStay s ! p, armedChanged s ! p,
      exitDelay s ! p, exitDelayChanged s ! p, alarm s ! p, alarmChanged s ! p,
      fire s ! p, fireChanged s ! p]"

text \<open>A step that leaves every array indexed by partition as it is.\<close>

definition partitions_kept :: "sketch \<Rightarrow> sketch \<Rightarrow> bool" where
  "partitions_kept s s' \<longleftrightarrow>
     disabled s' = disabled s \<and> armed s' = armed s \<and> armedAway s' = armedAway s \<and>
     armedStay s' = armedStay s \<and> armedChanged s' = armedChanged s \<and>
     exitDelay s' = exitDelay s \<and> exitDelayChanged s' = exitDelayChanged s \<and>
     alarm s' = alarm s \<and> alarmChanged s' = alarmChanged s \<and>
     fire s' = fire s \<and> fireChanged s' = fireChanged s"

section \<open>States and settings of the examples\<close>

definition idle :: sketch where
  "idle = \<lparr>statusChanged = False, pauseStatus = False, bufferOverflow = False,
      accessCodePrompt = False, keybusChanged = False, keybusConnected = True,
      powerChanged = False, powerTrouble = False, keypadFireAlarm = False,
      keypadAuxAlarm = False, keypadPanicAlarm = False,
      disabled = [False, False, False, False, False, False, False, False],
      armed = [False, False, False, False, False, False, False, False],
      armedAway = [False, False, False, False, False, False, False, False],
      armedStay = [False, False, False, False, False, False, False, False],
      armedChanged = [False, False, False, False, False, False, False, False],
      exitDelay = [False, False, False, False, False, False, False, False],
      exitDelayChanged = [False, False, False, False, False, False, False, False],
      alarm = [False, False, False, False, False, False, False, False],
      alarmChanged = [False, False, False, False, False, False, False, False],
      fire = [False, False, False, False, False, False, False, False],
      fireChanged = [False, False, False, False, False, False, False, False],
      openZonesStatusChanged = False,
      openZones = [0, 0, 0, 0, 0, 0, 0, 0],
      openZonesChanged = [0, 0, 0, 0, 0, 0, 0, 0],
      alarmZonesStatusChanged = False,
      alarmZones = [0, 0, 0, 0, 0, 0, 0, 0],
      alarmZonesChanged = [0, 0, 0, 0, 0, 0, 0, 0],
      writePartition = 1, wifiConnected = True, mqttPreviousTime = 0, trace = []\<rparr>"

text \<open>Partition 1 has just been armed away; nothing else has changed.\<close>

definition armed_away_1 :: sketch where
  "armed_away_1 =
     idle\<lparr>statusChanged := True,
          armedChanged := [True, False, False, False, False, False, False, False],
          armed := [True, False, False, False, False, False, False, False],
          armedAway := [True, False, False, False, False, False, False, False]\<rparr>"

text \<open>Zones 5 and 10 have changed: zone 5 is open, zone 10 has closed.\<close>

definition zones_5_10 :: sketch where
  "zones_5_10 =
     idle\<lparr>statusChanged := True, openZonesStatusChanged := True,
          openZones := [16, 0, 0, 0, 0, 0, 0, 0],
          openZonesChanged := [16, 2, 0, 0, 0, 0, 0, 0]\<rparr>"

text \<open>
  Partition 1 armed away, the alarm of partition 2 over, fire in partition 3, zone 5
  open, and the panel asking for the access code.
\<close>

definition busy :: sketch where
  "busy =
     idle\<lparr>statusChanged := True, accessCodePrompt := True,
          armedChanged := [True, False, False, False, False, False, False, False],
          armed := [True, False, False, False, False, False, False, False],
          armedAway := [True, False, False, False, False, False, False, False],
          alarmChanged := [False, True, False, False, False, False, False, False],
          fireChanged := [False, False, True, False, False, False, False, False],
          fire := [False, False, True, False, False, False, False, False],
          openZonesStatusChanged := True,
          openZones := [16, 0, 0, 0, 0, 0, 0, 0],
          openZonesChanged := [16, 0, 0, 0, 0, 0, 0, 0]\<rparr>"

text \<open>The alarm of partition 1 is over; nothing else has changed.\<close>

definition alarm_restored_1 :: sketch where
  "alarm_restored_1 =
     idle\<lparr>statusChanged := True,
          alarmChanged := [True, False, False, False, False, False, False, False]\<rparr>"

text \<open>Partition 2 is armed; nothing has changed.\<close>

definition armed_2 :: sketch where
  "armed_2 = idle\<lparr>armed := [False, True, False, False, False, False, False, False]\<rparr>"

text \<open>Partition 1 is disabled and its armed flag is set.\<close>

definition disabled_1 :: sketch where
  "disabled_1 =
     idle\<lparr>statusChanged := True,
          disabled := [True, False, False, False, False, False, False, False],
          armedChanged := [True, False, False, False, False, False, False, False]\<rparr>"

text \<open>The WiFi link is down and the sketch has noticed; nothing has changed.\<close>

definition offline :: sketch where
  "offline = idle\<lparr>wifiConnected := False, pauseStatus := True\<rparr>"

text \<open>
  The Keybus link is back, partition 1 is disarmed, partition 2 is disabled with its fire
  flag set, zone 5 is in alarm, and the panic key was pressed.
\<close>

definition tw_busy :: sketch where
  "tw_busy =
     idle\<lparr>statusChanged := True, keybusChanged := True,
          disabled := [False, True, False, False, False, False, False, False],
          armedChanged := [True, False, False, False, False, False, False, False],
          fireChanged := [False, True, False, False, False, False, False, False],
          alarmZonesStatusChanged := True,
          alarmZones := [16, 0, 0, 0, 0, 0, 0, 0],
          alarmZonesChanged := [16, 0, 0, 0, 0, 0, 0, 0],
          keypadPanicAlarm := True\<rparr>"

text \<open>The settings and the network of an exchange that succeeds.\<close>

definition some_secrets :: secrets where
  "some_secrets =
     \<lparr>AccountSID = ''AC0123'', Base64EncodedAuth = ''QUMwMTIzOnRva2Vu'',
      From = ''16046707979'', To = ''16041234567''\<rparr>"

definition quick_200 :: network where
  "quick_200 =
     \<lparr>connects = True, started = 0xFFFFFF00, waits = [0xFFFFFFF0, 0x100, 0x800],
      response = ''HTTP/1.1 200 OK''\<rparr>"

section \<open>Arrays, bits and numbers\<close>

lemma clear_unset: "\<not> xs ! p \<Longrightarrow> xs[p := False] = xs"
  by (metis list_update_id)

lemma set_all_Nil [simp]: "set_all v [] xs = xs"
  by (simp add: set_all_def)

lemma set_all_Cons [simp]: "set_all v (p # ps) xs = set_all v ps (xs[p := v])"
  by (simp add: set_all_def)

lemma length_set_all [simp]: "length (set_all v ps xs) = length xs"
  by (induction ps arbitrary: xs) auto

lemma nth_set_all:
  "q < length xs \<Longrightarrow> set_all v ps xs ! q = (if q \<in> set ps then v else xs ! q)"
proof (induction ps arbitrary: xs)
  case Nil
  then show ?case by simp
next
  case (Cons p ps)
  then show ?case by (cases "p = q") auto
qed

lemma set_all_upt: "length xs = n \<Longrightarrow> set_all v [0..<n] xs = replicate n v"
  by (rule nth_equalityI) (simp_all add: nth_set_all)

lemma bitRead_bit: "bitRead v b \<longleftrightarrow> bit v b"
  unfolding bitRead_def
  by (simp add: bit_iff_odd_drop_bit and_one_eq mod_2_eq_odd)

lemma bitClear_unset: "bitClear v b = unset_bit b v"
  unfolding bitClear_def
  by (simp add: unset_bit_eq_and_not)

lemma unset_bit_absent: "\<not> bit (v :: byte) b \<Longrightarrow> unset_bit b v = v"
  by (rule bit_eqI) (auto simp add: bit_unset_bit_iff)

lemma bit_fold_unset: "bit (fold unset_bit bs (v :: byte)) n \<longleftrightarrow> bit v n \<and> n \<notin> set bs"
  by (induction bs arbitrary: v) (auto simp add: bit_unset_bit_iff)

lemma fold_unset_all: "fold unset_bit [0..<8] (v :: byte) = 0"
proof (rule bit_eqI)
  fix n
  assume "possible_bit TYPE(byte) n"
  then have "n < 8" by (simp add: possible_bit_word)
  then show "bit (fold unset_bit [0..<8] v) n \<longleftrightarrow> bit (0 :: byte) n"
    by (simp add: bit_fold_unset)
qed

lemma bit_255: "bit (255 :: byte) b \<longleftrightarrow> b < 8"
proof -
  have m: "(mask 8 :: byte) = 255"
    by (simp add: mask_eq_exp_minus_1)
  have "bit (mask 8 :: byte) b \<longleftrightarrow> b < 8"
    unfolding bit_mask_iff by (auto simp add: possible_bit_word)
  then show ?thesis
    unfolding m .
qed

lemma itoa_1: "itoa (Suc 0) = ''1''"
  by (simp add: itoa.simps digit_def)

lemma length_itoa_pos: "0 < length (itoa n)"
  by (subst itoa.simps) simp

lemma concat_map_filter_skip:
  "(\<And>x. x \<in> set xs \<Longrightarrow> \<not> P x \<Longrightarrow> f x = []) \<Longrightarrow>
   concat (map f (filter P xs)) = concat (map f xs)"
  by (induction xs) auto

lemma wf_idle: "wf idle"
  by (simp add: wf_def idle_def dscPartitions_def dscZones_def)

section \<open>Traces\<close>

lemma publishes_append [simp]: "publishes (xs @ ys) = publishes xs @ publishes ys"
  by (induction xs rule: publishes.induct) simp_all

lemma publishes_concat: "publishes (concat xss) = concat (map publishes xss)"
  by (induction xss) simp_all

lemma clears_append [simp]: "clears (xs @ ys) = clears xs @ clears ys"
  by (induction xs rule: clears.induct) simp_all

lemma clears_concat: "clears (concat xss) = concat (map clears xss)"
  by (induction xss) simp_all

lemma disciplined_Clear_Cons:
  "disciplined s (Clear f n # y # ys) =
     (case y of Publish t pl r \<Rightarrow> flag_set s f n \<and> \<not> silent s f n \<and> t = flag_topic f n \<and> disciplined s ys
      | _ \<Rightarrow> flag_set s f n \<and> silent s f n \<and> disciplined s (y # ys))"
  by (cases y) simp_all

lemma disciplined_append:
  "disciplined s xs \<Longrightarrow> disciplined s ys \<Longrightarrow> disciplined s (xs @ ys)"
proof (induction xs rule: length_induct)
  case (1 xs)
  show ?case
  proof (cases xs)
    case Nil
    with 1 show ?thesis by simp
  next
    case (Cons e es)
    note xs = Cons
    show ?thesis
    proof (cases e)
      case (Clear f n)
      show ?thesis
      proof (cases es)
        case Nil
        with 1 xs Clear show ?thesis
          by (cases ys) (auto simp add: disciplined_Clear_Cons split: event.splits)
      next
        case (Cons y zs)
        have ih_es: "disciplined s es \<Longrightarrow> disciplined s (es @ ys)"
          using 1 xs by simp
        have ih_zs: "disciplined s zs \<Longrightarrow> disciplined s (zs @ ys)"
          using 1 xs Cons by simp
        from 1(2) xs Clear Cons ih_es ih_zs show ?thesis
          by (cases y) auto
      qed
    next
      case (Publish t pl r)
      with 1 xs show ?thesis by simp
    next
      case (Subscribe t)
      with 1 xs show ?thesis by simp
    next
      case (PanelWrite w k)
      with 1 xs show ?thesis by simp
    next
      case (Push a b)
      with 1 xs show ?thesis by simp
    qed
  qed
qed

lemma disciplined_concat:
  "(\<And>xs. xs \<in> set xss \<Longrightarrow> disciplined s xs) \<Longrightarrow> disciplined s (concat xss)"
  by (induction xss) (simp_all add: disciplined_append)

lemma attempted_append: "attempted xs \<Longrightarrow> attempted ys \<Longrightarrow> attempted (xs @ ys)"
  by (induction xs rule: attempted.induct) simp_all

lemma attempted_concat: "(\<And>xs. xs \<in> set xss \<Longrightarrow> attempted xs) \<Longrightarrow> attempted (concat xss)"
  by (induction xss) (simp_all add: attempted_append)

section \<open>The pass of the OpenHAB-MQTT loop\<close>

lemma armed_block_eq:
  "armed_block p s = s\<lparr>armedChanged := (armedChanged s)[p := False], trace := trace s @ armed_events p s\<rparr>"
  by (simp add: armed_block_def armed_events_def publishState_def mqtt_publish_def emit_def Let_def clear_unset)

lemma exitDelay_block_eq:
  "exitDelay_block p s = s\<lparr>exitDelayChanged := (exitDelayChanged s)[p := False], trace := trace s @ exitDelay_events p s\<rparr>"
  by (simp add: exitDelay_block_def exitDelay_events_def publishState_def mqtt_publish_def emit_def Let_def clear_unset)

lemma alarm_block_eq:
  "alarm_block p s = s\<lparr>alarmChanged := (alarmChanged s)[p := False], trace := trace s @ alarm_events p s\<rparr>"
  by (simp add: alarm_block_def alarm_events_def publishState_def mqtt_publish_def emit_def Let_def clear_unset)

lemma fire_block_eq:
  "fire_block p s = s\<lparr>fireChanged := (fireChanged s)[p := False], trace := trace s @ fire_events p s\<rparr>"
  by (simp add: fire_block_def fire_events_def publishState_def mqtt_publish_def emit_def Let_def clear_unset)

lemma partition_step_eq:
  "partition_step p s =
     s\<lparr>armedChanged := (armedChanged s)[p := False],
       exitDelayChanged := (exitDelayChanged s)[p := False],
       alarmChanged := (alarmChanged s)[p := False],
       fireChanged := (fireChanged s)[p := False],
       trace := trace s @ partition_events p s\<rparr>"
  by (simp add: partition_step_def armed_block_eq exitDelay_block_eq alarm_block_eq fire_block_eq
        partition_events_def armed_events_def exitDelay_events_def alarm_events_def fire_events_def)

lemma partition_events_cong:
  assumes "armedChanged s' ! p = armedChanged s ! p" "exitDelayChanged s' ! p = exitDelayChanged s ! p"
    "alarmChanged s' ! p = alarmChanged s ! p" "fireChanged s' ! p = fireChanged s ! p"
    "armed s' = armed s" "armedAway s' = armedAway s" "armedStay s' = armedStay s"
    "exitDelay s' = exitDelay s" "alarm s' = alarm s" "fire s' = fire s"
  shows "partition_events p s' = partition_events p s"
  using assms
  by (simp add: partition_events_def armed_events_def exitDelay_events_def alarm_events_def fire_events_def)

lemma fold_partition_step:
  "distinct ps \<Longrightarrow>
   fold partition_step ps s =
     s\<lparr>armedChanged := set_all False ps (armedChanged s),
       exitDelayChanged := set_all False ps (exitDelayChanged s),
       alarmChanged := set_all False ps (alarmChanged s),
       fireChanged := set_all False ps (fireChanged s),
       trace := trace s @ concat (map (\<lambda>p. partition_events p s) ps)\<rparr>"
proof (induction ps arbitrary: s)
  case Nil
  then show ?case by simp
next
  case (Cons p ps)
  define s1 where "s1 = partition_step p s"
  have ev: "partition_events q s1 = partition_events q s" if "q \<in> set ps" for q
  proof -
    from that Cons.prems have "q \<noteq> p" by auto
    then show ?thesis
      unfolding s1_def by (intro partition_events_cong) (simp_all add: partition_step_eq)
  qed
  have m: "map (\<lambda>q. partition_events q s1) ps = map (\<lambda>q. partition_events q s) ps"
    using ev by simp
  have "distinct ps" using Cons.prems by simp
  then have "fold partition_step ps s1 =
     s1\<lparr>armedChanged := set_all False ps (armedChanged s1),
       exitDelayChanged := set_all False ps (exitDelayChanged s1),
       alarmChanged := set_all False ps (alarmChanged s1),
       fireChanged := set_all False ps (fireChanged s1),
       trace := trace s1 @ concat (map (\<lambda>q. partition_events q s) ps)\<rparr>"
    using Cons.IH [of s1] by (simp only: m)
  then show ?case
    by (simp add: s1_def [symmetric]) (simp add: s1_def partition_step_eq)
qed

lemma partitions_loop_eq:
  "partitions_loop s =
     s\<lparr>armedChanged := set_all False [0..<dscPartitions] (armedChanged s),
       exitDelayChanged := set_all False [0..<dscPartitions] (exitDelayChanged s),
       alarmChanged := set_all False [0..<dscPartitions] (alarmChanged s),
       fireChanged := set_all False [0..<dscPartitions] (fireChanged s),
       trace := trace s @ concat (map (\<lambda>p. partition_events p s) [0..<dscPartitions])\<rparr>"
  unfolding partitions_loop_def by (rule fold_partition_step) simp

lemma zone_events_cong:
  "openZonesChanged s' ! g = openZonesChanged s ! g \<Longrightarrow> openZones s' = openZones s \<Longrightarrow>
   zone_events g b s' = zone_events g b s"
  by (simp add: zone_events_def)

lemma zone_step_eq:
  "zone_step g b s =
     s\<lparr>openZonesChanged := (openZonesChanged s)[g := unset_bit b (openZonesChanged s ! g)],
       trace := trace s @ zone_events g b s\<rparr>"
  by (simp add: zone_step_def zone_events_def bitRead_bit bitClear_unset mqtt_publish_def
        emit_def Let_def unset_bit_absent add.commute add.left_commute)

lemma fold_zone_step:
  "distinct bs \<Longrightarrow> g < length (openZonesChanged s) \<Longrightarrow>
   fold (zone_step g) bs s =
     s\<lparr>openZonesChanged := (openZonesChanged s)[g := fold unset_bit bs (openZonesChanged s ! g)],
       trace := trace s @ concat (map (\<lambda>b. zone_events g b s) bs)\<rparr>"
proof (induction bs arbitrary: s)
  case Nil
  then show ?case by simp
next
  case (Cons b bs)
  define s1 where "s1 = zone_step g b s"
  have len: "g < length (openZonesChanged s1)"
    using Cons.prems by (simp add: s1_def zone_step_eq)
  have ev: "zone_events g c s1 = zone_events g c s" if "c \<in> set bs" for c
  proof -
    from that Cons.prems have "c \<noteq> b" by auto
    then show ?thesis
      using Cons.prems by (simp add: s1_def zone_step_eq zone_events_def bit_unset_bit_iff)
  qed
  have m: "map (\<lambda>c. zone_events g c s1) bs = map (\<lambda>c. zone_events g c s) bs"
    using ev by simp
  have "distinct bs" using Cons.prems by simp
  then have "fold (zone_step g) bs s1 =
     s1\<lparr>openZonesChanged := (openZonesChanged s1)[g := fold unset_bit bs (openZonesChanged s1 ! g)],
        trace := trace s1 @ concat (map (\<lambda>c. zone_events g c s) bs)\<rparr>"
    using Cons.IH [of s1] len by (simp only: m)
  then show ?case
    using Cons.prems by (simp add: s1_def [symmetric]) (simp add: s1_def zone_step_eq)
qed

lemma zone_group_loop_eq:
  "g < length (openZonesChanged s) \<Longrightarrow>
   zone_group_loop g s =
     s\<lparr>openZonesChanged := (openZonesChanged s)[g := 0], trace := trace s @ group_events g s\<rparr>"
  by (simp add: zone_group_loop_def fold_zone_step fold_unset_all group_events_def)

lemma fold_zone_group_loop:
  "distinct gs \<Longrightarrow> \<forall>g \<in> set gs. g < length (openZonesChanged s) \<Longrightarrow>
   fold zone_group_loop gs s =
     s\<lparr>openZonesChanged := set_all 0 gs (openZonesChanged s),
       trace := trace s @ concat (map (\<lambda>g. group_events g s) gs)\<rparr>"
proof (induction gs arbitrary: s)
  case Nil
  then show ?case by simp
next
  case (Cons g gs)
  define s1 where "s1 = zone_group_loop g s"
  have g: "g < length (openZonesChanged s)" using Cons.prems by simp
  have len: "\<forall>h \<in> set gs. h < length (openZonesChanged s1)"
    using Cons.prems by (simp add: s1_def zone_group_loop_eq)
  have ev: "group_events h s1 = group_events h s" if "h \<in> set gs" for h
  proof -
    from that Cons.prems have "h \<noteq> g" by auto
    then have "zone_events h b s1 = zone_events h b s" for b
      using g by (intro zone_events_cong) (simp_all add: s1_def zone_group_loop_eq)
    then show ?thesis
      by (simp add: group_events_def)
  qed
  have m: "map (\<lambda>h. group_events h s1) gs = map (\<lambda>h. group_events h s) gs"
    using ev by simp
  have "distinct gs" using Cons.prems by simp
  then have "fold zone_group_loop gs s1 =
     s1\<lparr>openZonesChanged := set_all 0 gs (openZonesChanged s1),
        trace := trace s1 @ concat (map (\<lambda>h. group_events h s) gs)\<rparr>"
    using Cons.IH [of s1] len by (simp only: m)
  then show ?case
    using g by (simp add: s1_def [symmetric]) (simp add: s1_def zone_group_loop_eq)
qed

lemma zones_scan_eq:
  "length (openZonesChanged s) = dscZones \<Longrightarrow>
   zones_scan s =
     s\<lparr>openZonesChanged := replicate dscZones 0,
       trace := trace s @ concat (map (\<lambda>g. group_events g s) [0..<dscZones])\<rparr>"
  unfolding zones_scan_def by (subst fold_zone_group_loop) (simp_all add: set_all_upt)

lemma group_events_cong:
  assumes "openZonesChanged s' = openZonesChanged s" "openZones s' = openZones s"
  shows "group_events g s' = group_events g s"
proof -
  have "zone_events g b s' = zone_events g b s" for b
    by (rule zone_events_cong) (simp_all add: assms)
  then show ?thesis
    by (simp add: group_events_def)
qed

lemma zones_block_eq:
  assumes "length (openZonesChanged s) = dscZones"
  shows "zones_block s =
     s\<lparr>openZonesStatusChanged := False,
       openZonesChanged := (if openZonesStatusChanged s then replicate dscZones 0 else openZonesChanged s),
       trace := trace s @ zones_events s\<rparr>"
proof -
  have "group_events g (s\<lparr>openZonesStatusChanged := False\<rparr>) = group_events g s" for g
    by (rule group_events_cong) simp_all
  then show ?thesis
    using assms by (simp add: zones_block_def zones_events_def zones_scan_eq)
qed

lemma status_pass_eq:
  assumes "length (openZonesChanged s) = dscZones"
  shows "status_pass accessCode s =
     s\<lparr>bufferOverflow := False, accessCodePrompt := False,
       armedChanged := set_all False [0..<dscPartitions] (armedChanged s),
       exitDelayChanged := set_all False [0..<dscPartitions] (exitDelayChanged s),
       alarmChanged := set_all False [0..<dscPartitions] (alarmChanged s),
       fireChanged := set_all False [0..<dscPartitions] (fireChanged s),
       openZonesStatusChanged := False,
       openZonesChanged := (if openZonesStatusChanged s then replicate dscZones 0 else openZonesChanged s),
       trace := trace s @ pass_events accessCode s\<rparr>"
proof -
  define s1 where "s1 = (if bufferOverflow s then s\<lparr>bufferOverflow := False\<rparr> else s)"
  define s2 where "s2 = (if accessCodePrompt s1
                then emit (PanelWrite (writePartition s1) accessCode) (s1\<lparr>accessCodePrompt := False\<rparr>)
                else s1)"
  have s2: "s2 = s\<lparr>bufferOverflow := False, accessCodePrompt := False,
                   trace := trace s @ prompt_events accessCode s\<rparr>"
    by (simp add: s2_def s1_def emit_def prompt_events_def)
  have pe: "partition_events p s2 = partition_events p s" for p
    by (rule partition_events_cong) (simp_all add: s2)
  define s3 where "s3 = partitions_loop s2"
  have s3: "s3 = s\<lparr>bufferOverflow := False, accessCodePrompt := False,
       armedChanged := set_all False [0..<dscPartitions] (armedChanged s),
       exitDelayChanged := set_all False [0..<dscPartitions] (exitDelayChanged s),
       alarmChanged := set_all False [0..<dscPartitions] (alarmChanged s),
       fireChanged := set_all False [0..<dscPartitions] (fireChanged s),
       trace := trace s @ prompt_events accessCode s @
                concat (map (\<lambda>p. partition_events p s) [0..<dscPartitions])\<rparr>"
    unfolding s3_def partitions_loop_eq pe by (simp add: s2)
  have "group_events g s3 = group_events g s" for g
    by (rule group_events_cong) (simp_all add: s3)
  then have ze: "zones_events s3 = zones_events s"
    by (simp add: zones_events_def s3)
  have len: "length (openZonesChanged s3) = dscZones"
    using assms by (simp add: s3)
  have "status_pass accessCode s = emit (Subscribe mqttSubscribeTopic) (zones_block s3)"
    by (simp add: status_pass_def Let_def s3_def s2_def s1_def)
  also have "\<dots> = s\<lparr>bufferOverflow := False, accessCodePrompt := False,
       armedChanged := set_all False [0..<dscPartitions] (armedChanged s),
       exitDelayChanged := set_all False [0..<dscPartitions] (exitDelayChanged s),
       alarmChanged := set_all False [0..<dscPartitions] (alarmChanged s),
       fireChanged := set_all False [0..<dscPartitions] (fireChanged s),
       openZonesStatusChanged := False,
       openZonesChanged := (if openZonesStatusChanged s then replicate dscZones 0 else openZonesChanged s),
       trace := trace s @ pass_events accessCode s\<rparr>"
    unfolding zones_block_eq [OF len] ze by (simp add: s3 emit_def pass_events_def)
  finally show ?thesis .
qed

lemma pass_events_statusChanged:
  "pass_events accessCode (s\<lparr>statusChanged := b\<rparr>) = pass_events accessCode s"
proof -
  have "partition_events p (s\<lparr>statusChanged := b\<rparr>) = partition_events p s" for p
    by (rule partition_events_cong) simp_all
  moreover have "group_events g (s\<lparr>statusChanged := b\<rparr>) = group_events g s" for g
    by (rule group_events_cong) simp_all
  ultimately show ?thesis
    by (simp add: pass_events_def prompt_events_def zones_events_def)
qed

lemma loop_status_trace:
  assumes "length (openZonesChanged s) = dscZones" "statusChanged s"
  shows "trace (loop_status accessCode s) = trace s @ pass_events accessCode s"
  using assms by (simp add: loop_status_def status_pass_eq pass_events_statusChanged)

lemma partition_publish_in_pass:
  assumes "p < dscPartitions" "m \<in> set (publishes (partition_events p s))"
  shows "m \<in> set (publishes (pass_events accessCode s))"
  using assms by (auto simp add: pass_events_def publishes_concat)

lemma zone_publish_in_pass:
  assumes "openZonesStatusChanged s" "g < dscZones" "b < 8"
    "m \<in> set (publishes (zone_events g b s))"
  shows "m \<in> set (publishes (pass_events accessCode s))"
proof -
  have "m \<in> set (publishes (group_events g s))"
    using assms(3,4) by (auto simp add: group_events_def publishes_concat)
  then have "m \<in> set (publishes (zones_events s))"
    using assms(1,2) by (auto simp add: zones_events_def publishes_concat)
  then show ?thesis
    by (simp add: pass_events_def)
qed

lemma publishes_zone_events:
  "publishes (zone_events g b s) =
     (if bit (openZonesChanged s ! g) b
      then [(mqttZoneTopic @ itoa (g * 8 + b + 1), if bit (openZones s ! g) b then ''1'' else ''0'')]
      else [])"
  by (simp add: zone_events_def)

lemma publishes_zones_scan:
  assumes "length (openZonesChanged s) = dscZones"
  shows "publishes (trace (zones_scan s)) =
     publishes (trace s) @
     [(mqttZoneTopic @ itoa (g * 8 + b + 1), if bit (openZones s ! g) b then ''1'' else ''0'').
        g \<leftarrow> [0..<dscZones], b \<leftarrow> [0..<8], bit (openZonesChanged s ! g) b]"
  by (simp add: zones_scan_eq [OF assms] publishes_concat group_events_def comp_def
        publishes_zone_events)

lemma group_events_clear:
  assumes "openZonesChanged s ! g = 0"
  shows "group_events g s = []"
  using assms by (simp add: group_events_def zone_events_def)

lemma rescan_silent:
  assumes "length (openZonesChanged s) = dscZones"
  shows "trace (zones_scan (zones_scan s)) = trace (zones_scan s)"
proof -
  let ?s1 = "zones_scan s"
  have len: "length (openZonesChanged ?s1) = dscZones"
    by (simp add: zones_scan_eq [OF assms])
  have "group_events g ?s1 = []" if "g < dscZones" for g
    using that by (intro group_events_clear) (simp add: zones_scan_eq [OF assms])
  then have "concat (map (\<lambda>g. group_events g ?s1) [0..<dscZones]) = []"
    by simp
  then show ?thesis
    by (simp add: zones_scan_eq [OF len])
qed

section \<open>The changed-flags in the OpenHAB-MQTT pass\<close>

lemma disciplined_partition_events: "disciplined s (partition_events p s)"
  unfolding partition_events_def
  by (intro disciplined_append)
    (simp_all add: armed_events_def exitDelay_events_def alarm_events_def fire_events_def)

lemma disciplined_zone_events: "b < 8 \<Longrightarrow> disciplined s (zone_events g b s)"
  by (simp add: zone_events_def)

lemma disciplined_group_events: "disciplined s (group_events g s)"
  unfolding group_events_def
  by (rule disciplined_concat) (auto simp add: disciplined_zone_events)

lemma disciplined_zones_events: "disciplined s (zones_events s)"
  by (auto simp add: zones_events_def intro!: disciplined_concat disciplined_group_events)

lemma disciplined_pass_events: "disciplined s (pass_events accessCode s)"
  unfolding pass_events_def
  by (intro disciplined_append disciplined_concat disciplined_zones_events)
    (auto simp add: prompt_events_def disciplined_partition_events)

lemma clears_partition_events:
  "clears (partition_events p s) =
     filter (\<lambda>(f, n). flag_set s f n)
       [(ArmedChanged, p), (ExitDelayChanged, p), (AlarmChanged, p), (FireChanged, p)]"
  by (simp add: partition_events_def armed_events_def exitDelay_events_def alarm_events_def
        fire_events_def)

lemma clears_zone_events_list:
  "\<forall>b \<in> set bs. b < 8 \<Longrightarrow>
   clears (concat (map (\<lambda>b. zone_events g b s) bs)) =
     filter (\<lambda>(f, n). flag_set s f n) (map (\<lambda>b. (OpenZonesChanged, g * 8 + b)) bs)"
  by (induction bs) (simp_all add: zone_events_def)

lemma clears_group_events:
  "clears (group_events g s) =
     filter (\<lambda>(f, n). flag_set s f n) (map (\<lambda>b. (OpenZonesChanged, g * 8 + b)) [0..<8])"
  unfolding group_events_def by (rule clears_zone_events_list) simp

lemma distinct_flags: "distinct (partition_flags @ zone_flags)"
  by code_simp

lemma clears_pass_events:
  "clears (pass_events accessCode s) =
     filter (\<lambda>(f, n). flag_set s f n) partition_flags @
     (if openZonesStatusChanged s then filter (\<lambda>(f, n). flag_set s f n) zone_flags else [])"
  by (simp add: pass_events_def prompt_events_def zones_events_def clears_concat comp_def
        clears_partition_events clears_group_events partition_flags_def zone_flags_def
        filter_concat del: upt_Suc)

lemma distinct_clears_pass_events: "distinct (clears (pass_events accessCode s))"
proof -
  have d: "distinct (filter (\<lambda>(f, n). flag_set s f n) (partition_flags @ zone_flags))"
    using distinct_flags by (rule distinct_filter)
  show ?thesis
  proof (cases "openZonesStatusChanged s")
    case True
    with d show ?thesis by (simp add: clears_pass_events)
  next
    case False
    from d have "distinct (filter (\<lambda>(f, n). flag_set s f n) partition_flags)"
      by simp
    with False show ?thesis by (simp add: clears_pass_events)
  qed
qed

lemma partition_events_idle:
  assumes "\<not> armedChanged s ! p" "\<not> exitDelayChanged s ! p" "\<not> alarmChanged s ! p"
    "\<not> fireChanged s ! p"
  shows "partition_events p s = []"
  using assms
  by (simp add: partition_events_def armed_events_def exitDelay_events_def alarm_events_def
        fire_events_def)

lemma status_pass_fields:
  assumes "length (openZonesChanged s) = dscZones"
  shows "armedChanged (status_pass accessCode s) = set_all False [0..<dscPartitions] (armedChanged s)"
    and "exitDelayChanged (status_pass accessCode s) = set_all False [0..<dscPartitions] (exitDelayChanged s)"
    and "alarmChanged (status_pass accessCode s) = set_all False [0..<dscPartitions] (alarmChanged s)"
    and "fireChanged (status_pass accessCode s) = set_all False [0..<dscPartitions] (fireChanged s)"
    and "accessCodePrompt (status_pass accessCode s) = False"
    and "openZonesStatusChanged (status_pass accessCode s) = False"
    and "length (openZonesChanged (status_pass accessCode s)) = dscZones"
    and "trace (status_pass accessCode s) = trace s @ pass_events accessCode s"
  using assms by (simp_all add: status_pass_eq [OF assms])

lemma second_pass_events:
  assumes "wf s"
  shows "pass_events accessCode (status_pass accessCode s) = [Subscribe mqttSubscribeTopic]"
proof -
  let ?s1 = "status_pass accessCode s"
  have len: "length (openZonesChanged s) = dscZones"
    using assms by (simp add: wf_def)
  note f = status_pass_fields [OF len, of accessCode]
  have "partition_events p ?s1 = []" if "p < dscPartitions" for p
  proof (rule partition_events_idle)
    show "\<not> armedChanged ?s1 ! p"
      using that assms unfolding f(1) by (simp add: wf_def nth_set_all)
    show "\<not> exitDelayChanged ?s1 ! p"
      using that assms unfolding f(2) by (simp add: wf_def nth_set_all)
    show "\<not> alarmChanged ?s1 ! p"
      using that assms unfolding f(3) by (simp add: wf_def nth_set_all)
    show "\<not> fireChanged ?s1 ! p"
      using that assms unfolding f(4) by (simp add: wf_def nth_set_all)
  qed
  then have "concat (map (\<lambda>p. partition_events p ?s1) [0..<dscPartitions]) = []"
    by simp
  moreover have "prompt_events accessCode ?s1 = []"
    by (simp add: f(5) prompt_events_def)
  moreover have "zones_events ?s1 = []"
    by (simp add: f(6) zones_events_def)
  ultimately show ?thesis
    by (simp add: pass_events_def)
qed

lemma second_pass_trace:
  assumes "wf s"
  shows "trace (status_pass accessCode (status_pass accessCode s)) =
         trace (status_pass accessCode s) @ [Subscribe mqttSubscribeTopic]"
proof -
  have len: "length (openZonesChanged s) = dscZones"
    using assms by (simp add: wf_def)
  have len1: "length (openZonesChanged (status_pass accessCode s)) = dscZones"
    by (rule status_pass_fields(7) [OF len])
  show ?thesis
    unfolding status_pass_fields(8) [OF len1] second_pass_events [OF assms] ..
qed

section \<open>Commands and the connection\<close>

lemma dsc_write_to:
  "dsc_write keys (s\<lparr>writePartition := q\<rparr>) =
     s\<lparr>writePartition := q, trace := trace s @ [PanelWrite q keys]\<rparr>"
  by (simp add: dsc_write_def emit_def)

lemma mqttCallback_digit:
  assumes "0x31 \<le> payload 0" "payload 0 \<le> 0x38"
  shows "mqttCallback accessCode payload len s =
     (if payload 1 = 0x53 \<and> \<not> armed s ! unat (payload 0 - 0x31) \<and> \<not> exitDelay s ! unat (payload 0 - 0x31)
      then s\<lparr>writePartition := payload 0 - 0x30, trace := trace s @ [PanelWrite (payload 0 - 0x30) ''s'']\<rparr>
      else if payload 1 = 0x41 \<and> \<not> armed s ! unat (payload 0 - 0x31) \<and> \<not> exitDelay s ! unat (payload 0 - 0x31)
      then s\<lparr>writePartition := payload 0 - 0x30, trace := trace s @ [PanelWrite (payload 0 - 0x30) ''w'']\<rparr>
      else if payload 1 = 0x44 \<and> (armed s ! unat (payload 0 - 0x31) \<or> exitDelay s ! unat (payload 0 - 0x31))
      then s\<lparr>writePartition := payload 0 - 0x30, trace := trace s @ [PanelWrite (payload 0 - 0x30) accessCode]\<rparr>
      else s)"
proof -
  have w: "payload 0 - 49 + 1 = payload 0 - 0x30" by simp
  show ?thesis
    unfolding mqttCallback_def
    by (simp only: assms simp_thms if_True Let_def prod.case dsc_write_to w)
qed

lemma mqttCallback_plain:
  assumes "\<not> (0x31 \<le> payload 0 \<and> payload 0 \<le> 0x38)"
  shows "mqttCallback accessCode payload len s =
     (if payload 0 = 0x53 \<and> \<not> armed s ! 0 \<and> \<not> exitDelay s ! 0
      then s\<lparr>writePartition := 1, trace := trace s @ [PanelWrite 1 ''s'']\<rparr>
      else if payload 0 = 0x41 \<and> \<not> armed s ! 0 \<and> \<not> exitDelay s ! 0
      then s\<lparr>writePartition := 1, trace := trace s @ [PanelWrite 1 ''w'']\<rparr>
      else if payload 0 = 0x44 \<and> (armed s ! 0 \<or> exitDelay s ! 0)
      then s\<lparr>writePartition := 1, trace := trace s @ [PanelWrite 1 accessCode]\<rparr>
      else s)"
proof -
  have w: "(0 :: byte) + 1 = 1" "unat (0 :: byte) = 0" by simp_all
  show ?thesis
    unfolding mqttCallback_def
    by (simp only: assms simp_thms if_False Let_def prod.case dsc_write_to w)
qed

lemma mqttCallback_length: "mqttCallback accessCode payload len s = mqttCallback accessCode payload len' s"
  by (simp only: mqttCallback_def)

lemma arm_or_nothing:
  assumes "r = (if a then x else if b then y else if False then z else s)"
  shows "r = s \<or> r = x \<or> r = y"
  using assms by (cases a; cases b) simp_all

lemma resetStatus_fields:
  assumes "wf s"
  shows "armedChanged (resetStatus s) = replicate dscPartitions True"
    and "exitDelayChanged (resetStatus s) = replicate dscPartitions True"
    and "alarmChanged (resetStatus s) = replicate dscPartitions True"
    and "fireChanged (resetStatus s) = replicate dscPartitions True"
    and "openZonesChanged (resetStatus s) = replicate dscZones 0xFF"
    and "statusChanged (resetStatus s)"
    and "openZonesStatusChanged (resetStatus s)"
    and "trace (resetStatus s) = trace s"
    and "wf (resetStatus s)"
  using assms by (simp_all add: resetStatus_def wf_def set_all_upt)

lemma flags_set_resetStatus:
  assumes "wf s" "(f, n) \<in> set (partition_flags @ zone_flags)"
  shows "flag_set (resetStatus s) f n"
proof -
  have z: "flag_set (resetStatus s) OpenZonesChanged (g * 8 + b)" if "g < dscZones" "b < 8" for g b
  proof -
    have "bit (255 :: byte) b"
      using that(2) by (simp only: bit_255)
    then show ?thesis
      using that by (simp add: resetStatus_fields [OF assms(1)])
  qed
  have "(f, n) \<in> set partition_flags \<or> (f, n) \<in> set zone_flags"
    using assms(2) by simp
  then show ?thesis
  proof
    assume "(f, n) \<in> set partition_flags"
    then show ?thesis
      by (auto simp add: partition_flags_def resetStatus_fields [OF assms(1)])
  next
    assume "(f, n) \<in> set zone_flags"
    then obtain g b where "g < dscZones" "b < 8" "f = OpenZonesChanged" "n = g * 8 + b"
      by (auto simp add: zone_flags_def)
    then show ?thesis
      using z by blast
  qed
qed

lemma mqttConnect_ok: "mqttConnect True connected s = (connected, resetStatus s)"
  by (simp add: mqttConnect_def)

lemma clears_after_reset:
  assumes "wf s"
  shows "clears (pass_events accessCode (resetStatus s)) = partition_flags @ zone_flags"
proof -
  have "filter (\<lambda>(f, n). flag_set (resetStatus s) f n) partition_flags = partition_flags"
    by (rule filter_True) (auto simp add: flags_set_resetStatus [OF assms])
  moreover have "filter (\<lambda>(f, n). flag_set (resetStatus s) f n) zone_flags = zone_flags"
    by (rule filter_True) (auto simp add: flags_set_resetStatus [OF assms])
  ultimately show ?thesis
    by (simp add: clears_pass_events resetStatus_fields(7) [OF assms])
qed

section \<open>The destination buffers\<close>

lemma strcat_into_full:
  "0 < length src \<Longrightarrow> isl (strcat_into (length dest + 1) dest src)"
  by (simp add: strcat_into_def)

section \<open>The pass of the Twilio loop\<close>

lemma part_view_cong:
  assumes "disabled s' = disabled s" "armed s' = armed s" "armedAway s' = armedAway s"
    "armedStay s' = armedStay s" "armedChanged s' ! p = armedChanged s ! p"
    "exitDelay s' = exitDelay s" "exitDelayChanged s' = exitDelayChanged s"
    "alarm s' = alarm s" "alarmChanged s' ! p = alarmChanged s ! p"
    "fire s' = fire s" "fireChanged s' ! p = fireChanged s ! p"
  shows "part_view p s' = part_view p s"
  using assms by (simp add: part_view_def)

lemma tw_armed_block_eq:
  "tw_armed_block stale p s =
     s\<lparr>armedChanged := (armedChanged s)[p := False], trace := trace s @ tw_armed_events stale p s\<rparr>"
  by (simp add: tw_armed_block_def tw_armed_events_def push_def emit_def Let_def clear_unset)

lemma tw_alarm_block_eq:
  "tw_alarm_block p s =
     s\<lparr>alarmChanged := (alarmChanged s)[p := False], trace := trace s @ tw_alarm_events p s\<rparr>"
  by (simp add: tw_alarm_block_def tw_alarm_events_def push_def emit_def Let_def clear_unset)

lemma tw_fire_block_eq:
  "tw_fire_block p s =
     s\<lparr>fireChanged := (fireChanged s)[p := False], trace := trace s @ tw_fire_events p s\<rparr>"
  by (simp add: tw_fire_block_def tw_fire_events_def push_def emit_def Let_def clear_unset)

lemma tw_partition_step_enabled:
  assumes "\<not> disabled s ! p"
  shows "tw_partition_step stale p s =
     s\<lparr>armedChanged := (armedChanged s)[p := False],
       alarmChanged := (alarmChanged s)[p := False],
       fireChanged := (fireChanged s)[p := False],
       trace := trace s @ tw_partition_events stale p s\<rparr>"
  using assms
  by (simp add: tw_partition_step_def tw_armed_block_eq tw_alarm_block_eq tw_fire_block_eq
        tw_partition_events_def tw_armed_events_def tw_alarm_events_def tw_fire_events_def)

lemma tw_partition_step_disabled:
  "disabled s ! p \<Longrightarrow> tw_partition_step stale p s = s"
  by (simp add: tw_partition_step_def)

lemma disabled_tw_partition_step [simp]:
  "disabled (tw_partition_step stale q s) = disabled s"
  by (cases "disabled s ! q") (simp_all add: tw_partition_step_disabled tw_partition_step_enabled)

lemma part_view_tw_partition_step:
  assumes "disabled s ! p"
  shows "part_view p (tw_partition_step stale q s) = part_view p s"
proof (cases "disabled s ! q")
  case True
  then show ?thesis by (simp add: tw_partition_step_disabled)
next
  case False
  with assms have "q \<noteq> p" by auto
  then show ?thesis
    by (intro part_view_cong) (simp_all add: tw_partition_step_enabled [OF False])
qed

lemma fold_tw_partition_step_skip:
  "fold (tw_partition_step stale) ps s =
   fold (tw_partition_step stale) (filter (\<lambda>q. \<not> disabled s ! q) ps) s"
proof (induction ps arbitrary: s)
  case Nil
  then show ?case by simp
next
  case (Cons q ps)
  show ?case
  proof (cases "disabled s ! q")
    case True
    then show ?thesis
      using Cons.IH [of s] by (simp add: tw_partition_step_disabled)
  next
    case False
    then show ?thesis
      using Cons.IH [of "tw_partition_step stale q s"] by simp
  qed
qed

lemma part_view_fold_tw_partition_step:
  assumes "disabled s ! p"
  shows "part_view p (fold (tw_partition_step stale) ps s) = part_view p s"
  using assms
proof (induction ps arbitrary: s)
  case Nil
  then show ?case by simp
next
  case (Cons q ps)
  have "disabled (tw_partition_step stale q s) ! p"
    using Cons.prems by simp
  then have "part_view p (fold (tw_partition_step stale) ps (tw_partition_step stale q s)) =
             part_view p (tw_partition_step stale q s)"
    by (rule Cons.IH)
  then show ?case
    using Cons.prems by (simp add: part_view_tw_partition_step)
qed

lemma partitions_kept_refl [simp]: "partitions_kept s s"
  by (simp add: partitions_kept_def)

lemma partitions_kept_trans:
  "partitions_kept s s' \<Longrightarrow> partitions_kept s' s'' \<Longrightarrow> partitions_kept s s''"
  by (simp add: partitions_kept_def)

lemma partitions_kept_fold:
  assumes "\<And>x t. partitions_kept t (f x t)"
  shows "partitions_kept s (fold f xs s)"
proof (induction xs arbitrary: s)
  case Nil
  then show ?case by simp
next
  case (Cons x xs)
  have "partitions_kept s (f x s)" by (rule assms)
  moreover have "partitions_kept (f x s) (fold f xs (f x s))" by (rule Cons.IH)
  ultimately show ?case
    by (simp add: partitions_kept_trans)
qed

lemma partitions_kept_view: "partitions_kept s s' \<Longrightarrow> part_view p s' = part_view p s"
  by (simp add: partitions_kept_def part_view_def)

lemma kept_keybus_block: "partitions_kept s (keybus_block s)"
  by (simp add: partitions_kept_def keybus_block_def push_def emit_def Let_def)

lemma kept_power_block: "partitions_kept s (power_block s)"
  by (simp add: partitions_kept_def power_block_def push_def emit_def Let_def)

lemma kept_keypad_blocks: "partitions_kept s (keypad_blocks s)"
  by (simp add: partitions_kept_def keypad_blocks_def push_def emit_def Let_def)

lemma kept_tw_zone_step: "partitions_kept s (tw_zone_step g b s)"
  by (simp add: partitions_kept_def tw_zone_step_def push_def emit_def Let_def)

lemma kept_tw_zones_block: "partitions_kept s (tw_zones_block s)"
proof (cases "alarmZonesStatusChanged s")
  case True
  have "partitions_kept s (s\<lparr>alarmZonesStatusChanged := False\<rparr>)"
    by (simp add: partitions_kept_def)
  moreover have "partitions_kept t (fold (\<lambda>g. fold (tw_zone_step g) [0..<8]) gs t)" for t gs
    by (intro partitions_kept_fold kept_tw_zone_step)
  ultimately show ?thesis
    using True by (auto simp add: tw_zones_block_def intro: partitions_kept_trans)
next
  case False
  then show ?thesis by (simp add: tw_zones_block_def)
qed

lemma part_view_tw_status_pass:
  assumes "disabled s ! p"
  shows "part_view p (tw_status_pass stale s) = part_view p s"
proof -
  define s1 where "s1 = (if bufferOverflow s then s\<lparr>bufferOverflow := False\<rparr> else s)"
  define s2 where "s2 = keybus_block s1"
  define s3 where "s3 = tw_partitions_loop stale s2"
  define s4 where "s4 = tw_zones_block s3"
  define s5 where "s5 = power_block s4"
  have k1: "partitions_kept s s1"
    by (simp add: s1_def partitions_kept_def)
  have k2: "partitions_kept s1 s2"
    unfolding s2_def by (rule kept_keybus_block)
  from k1 k2 have k12: "partitions_kept s s2"
    by (rule partitions_kept_trans)
  then have v2: "part_view p s2 = part_view p s"
    by (rule partitions_kept_view)
  have "disabled s2 ! p"
    using k12 assms by (simp add: partitions_kept_def)
  then have v3: "part_view p s3 = part_view p s2"
    unfolding s3_def tw_partitions_loop_def by (rule part_view_fold_tw_partition_step)
  have "partitions_kept s3 s4"
    unfolding s4_def by (rule kept_tw_zones_block)
  moreover have "partitions_kept s4 s5"
    unfolding s5_def by (rule kept_power_block)
  moreover have "partitions_kept s5 (keypad_blocks s5)"
    by (rule kept_keypad_blocks)
  ultimately have "partitions_kept s3 (keypad_blocks s5)"
    by (blast intro: partitions_kept_trans)
  then have "part_view p (keypad_blocks s5) = part_view p s3"
    by (rule partitions_kept_view)
  moreover have "tw_status_pass stale s = keypad_blocks s5"
    by (simp add: tw_status_pass_def Let_def s5_def s4_def s3_def s2_def s1_def)
  ultimately show ?thesis
    using v2 v3 by simp
qed

lemma keybus_block_eq:
  "keybus_block s = s\<lparr>keybusChanged := False, trace := trace s @ keybus_events s\<rparr>"
  by (simp add: keybus_block_def keybus_events_def push_def emit_def Let_def)

lemma power_block_eq:
  "power_block s = s\<lparr>powerChanged := False, trace := trace s @ power_events s\<rparr>"
  by (simp add: power_block_def power_events_def push_def emit_def Let_def)

lemma keypad_blocks_eq:
  "keypad_blocks s =
     s\<lparr>keypadFireAlarm := False, keypadAuxAlarm := False, keypadPanicAlarm := False,
       trace := trace s @ keypad_events s\<rparr>"
  by (simp add: keypad_blocks_def keypad_events_def push_def emit_def Let_def)

lemma tw_partition_events_cong:
  assumes "disabled s' = disabled s"
    "armedChanged s' ! p = armedChanged s ! p" "alarmChanged s' ! p = alarmChanged s ! p"
    "fireChanged s' ! p = fireChanged s ! p"
    "armed s' = armed s" "armedAway s' = armedAway s" "armedStay s' = armedStay s"
    "alarm s' = alarm s" "fire s' = fire s"
  shows "tw_partition_events stale p s' = tw_partition_events stale p s"
  using assms
  by (simp add: tw_partition_events_def tw_armed_events_def tw_alarm_events_def tw_fire_events_def)

lemma fold_tw_partition_step_enabled:
  "distinct ps \<Longrightarrow> \<forall>p \<in> set ps. \<not> disabled s ! p \<Longrightarrow>
   fold (tw_partition_step stale) ps s =
     s\<lparr>armedChanged := set_all False ps (armedChanged s),
       alarmChanged := set_all False ps (alarmChanged s),
       fireChanged := set_all False ps (fireChanged s),
       trace := trace s @ concat (map (\<lambda>p. tw_partition_events stale p s) ps)\<rparr>"
proof (induction ps arbitrary: s)
  case Nil
  then show ?case by simp
next
  case (Cons p ps)
  define s1 where "s1 = tw_partition_step stale p s"
  have en: "\<not> disabled s ! p" using Cons.prems by simp
  have s1: "s1 = s\<lparr>armedChanged := (armedChanged s)[p := False],
       alarmChanged := (alarmChanged s)[p := False],
       fireChanged := (fireChanged s)[p := False],
       trace := trace s @ tw_partition_events stale p s\<rparr>"
    unfolding s1_def using en by (rule tw_partition_step_enabled)
  have ev: "tw_partition_events stale q s1 = tw_partition_events stale q s" if "q \<in> set ps" for q
  proof -
    from that Cons.prems have "q \<noteq> p" by auto
    then show ?thesis
      by (intro tw_partition_events_cong) (simp_all add: s1)
  qed
  have m: "map (\<lambda>q. tw_partition_events stale q s1) ps = map (\<lambda>q. tw_partition_events stale q s) ps"
    using ev by simp
  have "distinct ps" using Cons.prems by simp
  moreover have "\<forall>q \<in> set ps. \<not> disabled s1 ! q"
    using Cons.prems by (simp add: s1)
  ultimately have "fold (tw_partition_step stale) ps s1 =
     s1\<lparr>armedChanged := set_all False ps (armedChanged s1),
        alarmChanged := set_all False ps (alarmChanged s1),
        fireChanged := set_all False ps (fireChanged s1),
        trace := trace s1 @ concat (map (\<lambda>q. tw_partition_events stale q s) ps)\<rparr>"
    using Cons.IH [of s1] by (simp only: m)
  then show ?case
    by (simp add: s1_def [symmetric]) (simp add: s1)
qed

lemma tw_partitions_loop_eq:
  "tw_partitions_loop stale s =
     s\<lparr>armedChanged := set_all False (enabled s) (armedChanged s),
       alarmChanged := set_all False (enabled s) (alarmChanged s),
       fireChanged := set_all False (enabled s) (fireChanged s),
       trace := trace s @ concat (map (\<lambda>p. tw_partition_events stale p s) [0..<dscPartitions])\<rparr>"
proof -
  have "tw_partitions_loop stale s = fold (tw_partition_step stale) (enabled s) s"
    unfolding tw_partitions_loop_def enabled_def by (rule fold_tw_partition_step_skip)
  also have "\<dots> = s\<lparr>armedChanged := set_all False (enabled s) (armedChanged s),
       alarmChanged := set_all False (enabled s) (alarmChanged s),
       fireChanged := set_all False (enabled s) (fireChanged s),
       trace := trace s @ concat (map (\<lambda>p. tw_partition_events stale p s) (enabled s))\<rparr>"
    by (rule fold_tw_partition_step_enabled) (simp_all add: enabled_def)
  also have "concat (map (\<lambda>p. tw_partition_events stale p s) (enabled s)) =
             concat (map (\<lambda>p. tw_partition_events stale p s) [0..<dscPartitions])"
    unfolding enabled_def by (rule concat_map_filter_skip) (simp add: tw_partition_events_def)
  finally show ?thesis .
qed

lemma tw_zone_events_cong:
  "alarmZonesChanged s' ! g = alarmZonesChanged s ! g \<Longrightarrow> alarmZones s' = alarmZones s \<Longrightarrow>
   tw_zone_events g b s' = tw_zone_events g b s"
  by (simp add: tw_zone_events_def)

lemma tw_group_events_cong:
  assumes "alarmZonesChanged s' = alarmZonesChanged s" "alarmZones s' = alarmZones s"
  shows "tw_group_events g s' = tw_group_events g s"
proof -
  have "tw_zone_events g b s' = tw_zone_events g b s" for b
    by (rule tw_zone_events_cong) (simp_all add: assms)
  then show ?thesis
    by (simp add: tw_group_events_def)
qed

lemma tw_zone_step_eq:
  "tw_zone_step g b s =
     s\<lparr>alarmZonesChanged := (alarmZonesChanged s)[g := unset_bit b (alarmZonesChanged s ! g)],
       trace := trace s @ tw_zone_events g b s\<rparr>"
  by (simp add: tw_zone_step_def tw_zone_events_def bitRead_bit bitClear_unset push_def
        emit_def Let_def unset_bit_absent add.commute add.left_commute)

lemma fold_tw_zone_step:
  "distinct bs \<Longrightarrow> g < length (alarmZonesChanged s) \<Longrightarrow>
   fold (tw_zone_step g) bs s =
     s\<lparr>alarmZonesChanged := (alarmZonesChanged s)[g := fold unset_bit bs (alarmZonesChanged s ! g)],
       trace := trace s @ concat (map (\<lambda>b. tw_zone_events g b s) bs)\<rparr>"
proof (induction bs arbitrary: s)
  case Nil
  then show ?case by simp
next
  case (Cons b bs)
  define s1 where "s1 = tw_zone_step g b s"
  have len: "g < length (alarmZonesChanged s1)"
    using Cons.prems by (simp add: s1_def tw_zone_step_eq)
  have ev: "tw_zone_events g c s1 = tw_zone_events g c s" if "c \<in> set bs" for c
  proof -
    from that Cons.prems have "c \<noteq> b" by auto
    then show ?thesis
      using Cons.prems by (simp add: s1_def tw_zone_step_eq tw_zone_events_def bit_unset_bit_iff)
  qed
  have m: "map (\<lambda>c. tw_zone_events g c s1) bs = map (\<lambda>c. tw_zone_events g c s) bs"
    using ev by simp
  have "distinct bs" using Cons.prems by simp
  then have "fold (tw_zone_step g) bs s1 =
     s1\<lparr>alarmZonesChanged := (alarmZonesChanged s1)[g := fold unset_bit bs (alarmZonesChanged s1 ! g)],
        trace := trace s1 @ concat (map (\<lambda>c. tw_zone_events g c s) bs)\<rparr>"
    using Cons.IH [of s1] len by (simp only: m)
  then show ?case
    using Cons.prems by (simp add: s1_def [symmetric]) (simp add: s1_def tw_zone_step_eq)
qed

lemma tw_zone_group_eq:
  "g < length (alarmZonesChanged s) \<Longrightarrow>
   fold (tw_zone_step g) [0..<8] s =
     s\<lparr>alarmZonesChanged := (alarmZonesChanged s)[g := 0], trace := trace s @ tw_group_events g s\<rparr>"
  by (simp add: fold_tw_zone_step fold_unset_all tw_group_events_def)

lemma fold_tw_zone_group:
  "distinct gs \<Longrightarrow> \<forall>g \<in> set gs. g < length (alarmZonesChanged s) \<Longrightarrow>
   fold (\<lambda>g. fold (tw_zone_step g) [0..<8]) gs s =
     s\<lparr>alarmZonesChanged := set_all 0 gs (alarmZonesChanged s),
       trace := trace s @ concat (map (\<lambda>g. tw_group_events g s) gs)\<rparr>"
proof (induction gs arbitrary: s)
  case Nil
  then show ?case by simp
next
  case (Cons g gs)
  define s1 where "s1 = fold (tw_zone_step g) [0..<8] s"
  have g: "g < length (alarmZonesChanged s)" using Cons.prems by simp
  have s1: "s1 = s\<lparr>alarmZonesChanged := (alarmZonesChanged s)[g := 0],
                    trace := trace s @ tw_group_events g s\<rparr>"
    unfolding s1_def using g by (rule tw_zone_group_eq)
  have len: "\<forall>h \<in> set gs. h < length (alarmZonesChanged s1)"
    using Cons.prems by (simp add: s1)
  have ev: "tw_group_events h s1 = tw_group_events h s" if "h \<in> set gs" for h
  proof -
    from that Cons.prems have "h \<noteq> g" by auto
    then have "tw_zone_events h b s1 = tw_zone_events h b s" for b
      using g by (intro tw_zone_events_cong) (simp_all add: s1)
    then show ?thesis
      by (simp add: tw_group_events_def)
  qed
  have m: "map (\<lambda>h. tw_group_events h s1) gs = map (\<lambda>h. tw_group_events h s) gs"
    using ev by simp
  have "distinct gs" using Cons.prems by simp
  then have "fold (\<lambda>g. fold (tw_zone_step g) [0..<8]) gs s1 =
     s1\<lparr>alarmZonesChanged := set_all 0 gs (alarmZonesChanged s1),
        trace := trace s1 @ concat (map (\<lambda>h. tw_group_events h s) gs)\<rparr>"
    using Cons.IH [of s1] len by (simp only: m)
  then show ?case
    by (simp add: s1_def [symmetric]) (simp add: s1)
qed

lemma tw_zones_block_eq:
  assumes "length (alarmZonesChanged s) = dscZones"
  shows "tw_zones_block s =
     s\<lparr>alarmZonesStatusChanged := False,
       alarmZonesChanged :=
         (if alarmZonesStatusChanged s then replicate dscZones 0 else alarmZonesChanged s),
       trace := trace s @ tw_zones_events s\<rparr>"
proof (cases "alarmZonesStatusChanged s")
  case True
  let ?s0 = "s\<lparr>alarmZonesStatusChanged := False\<rparr>"
  have ge: "tw_group_events g ?s0 = tw_group_events g s" for g
    by (rule tw_group_events_cong) simp_all
  have "fold (\<lambda>g. fold (tw_zone_step g) [0..<8]) [0..<dscZones] ?s0 =
     ?s0\<lparr>alarmZonesChanged := set_all 0 [0..<dscZones] (alarmZonesChanged ?s0),
       trace := trace ?s0 @ concat (map (\<lambda>g. tw_group_events g ?s0) [0..<dscZones])\<rparr>"
    by (rule fold_tw_zone_group) (simp_all add: assms)
  then show ?thesis
    using True assms by (simp add: tw_zones_block_def tw_zones_events_def ge set_all_upt)
next
  case False
  then show ?thesis
    by (simp add: tw_zones_block_def tw_zones_events_def)
qed

lemma enabled_cong: "disabled s' = disabled s \<Longrightarrow> enabled s' = enabled s"
  by (simp add: enabled_def)

lemma tw_zones_events_cong:
  assumes "alarmZonesStatusChanged s' = alarmZonesStatusChanged s"
    "alarmZonesChanged s' = alarmZonesChanged s" "alarmZones s' = alarmZones s"
  shows "tw_zones_events s' = tw_zones_events s"
proof -
  have "tw_group_events g s' = tw_group_events g s" for g
    using assms(2,3) by (rule tw_group_events_cong)
  then show ?thesis
    by (simp add: tw_zones_events_def assms(1))
qed

lemma power_events_cong:
  "powerChanged s' = powerChanged s \<Longrightarrow> powerTrouble s' = powerTrouble s \<Longrightarrow>
   power_events s' = power_events s"
  by (simp add: power_events_def)

lemma keypad_events_cong:
  "keypadFireAlarm s' = keypadFireAlarm s \<Longrightarrow> keypadAuxAlarm s' = keypadAuxAlarm s \<Longrightarrow>
   keypadPanicAlarm s' = keypadPanicAlarm s \<Longrightarrow> keypad_events s' = keypad_events s"
  by (simp add: keypad_events_def)

lemma tw_status_pass_eq:
  assumes "length (alarmZonesChanged s) = dscZones"
  shows "tw_status_pass stale s =
     s\<lparr>bufferOverflow := False, keybusChanged := False,
       armedChanged := set_all False (enabled s) (armedChanged s),
       alarmChanged := set_all False (enabled s) (alarmChanged s),
       fireChanged := set_all False (enabled s) (fireChanged s),
       alarmZonesStatusChanged := False,
       alarmZonesChanged :=
         (if alarmZonesStatusChanged s then replicate dscZones 0 else alarmZonesChanged s),
       powerChanged := False,
       keypadFireAlarm := False, keypadAuxAlarm := False, keypadPanicAlarm := False,
       trace := trace s @ tw_pass_events stale s\<rparr>"
proof -
  define s1 where "s1 = (if bufferOverflow s then s\<lparr>bufferOverflow := False\<rparr> else s)"
  define s2 where "s2 = keybus_block s1"
  define s3 where "s3 = tw_partitions_loop stale s2"
  define s4 where "s4 = tw_zones_block s3"
  define s5 where "s5 = power_block s4"
  have s1: "s1 = s\<lparr>bufferOverflow := False\<rparr>"
    by (simp add: s1_def)
  have "keybus_events s1 = keybus_events s"
    by (simp add: keybus_events_def s1)
  then have s2: "s2 = s\<lparr>bufferOverflow := False, keybusChanged := False,
                          trace := trace s @ keybus_events s\<rparr>"
    by (simp add: s2_def keybus_block_eq) (simp add: s1)
  have pe: "tw_partition_events stale p s2 = tw_partition_events stale p s" for p
    by (rule tw_partition_events_cong) (simp_all add: s2)
  have en: "enabled s2 = enabled s"
    by (rule enabled_cong) (simp add: s2)
  have s3: "s3 = s\<lparr>bufferOverflow := False, keybusChanged := False,
       armedChanged := set_all False (enabled s) (armedChanged s),
       alarmChanged := set_all False (enabled s) (alarmChanged s),
       fireChanged := set_all False (enabled s) (fireChanged s),
       trace := trace s @ keybus_events s @
                concat (map (\<lambda>p. tw_partition_events stale p s) [0..<dscPartitions])\<rparr>"
    unfolding s3_def tw_partitions_loop_eq pe en by (simp add: s2)
  have ze: "tw_zones_events s3 = tw_zones_events s"
    by (rule tw_zones_events_cong) (simp_all add: s3)
  have len: "length (alarmZonesChanged s3) = dscZones"
    using assms by (simp add: s3)
  have s4: "s4 = s\<lparr>bufferOverflow := False, keybusChanged := False,
       armedChanged := set_all False (enabled s) (armedChanged s),
       alarmChanged := set_all False (enabled s) (alarmChanged s),
       fireChanged := set_all False (enabled s) (fireChanged s),
       alarmZonesStatusChanged := False,
       alarmZonesChanged :=
         (if alarmZonesStatusChanged s then replicate dscZones 0 else alarmZonesChanged s),
       trace := trace s @ keybus_events s @
                concat (map (\<lambda>p. tw_partition_events stale p s) [0..<dscPartitions]) @
                tw_zones_events s\<rparr>"
    unfolding s4_def tw_zones_block_eq [OF len] ze by (simp add: s3)
  have po: "power_events s4 = power_events s"
    by (rule power_events_cong) (simp_all add: s4)
  have s5: "s5 = s\<lparr>bufferOverflow := False, keybusChanged := False,
       armedChanged := set_all False (enabled s) (armedChanged s),
       alarmChanged := set_all False (enabled s) (alarmChanged s),
       fireChanged := set_all False (enabled s) (fireChanged s),
       alarmZonesStatusChanged := False,
       alarmZonesChanged :=
         (if alarmZonesStatusChanged s then replicate dscZones 0 else alarmZonesChanged s),
       powerChanged := False,
       trace := trace s @ keybus_events s @
                concat (map (\<lambda>p. tw_partition_events stale p s) [0..<dscPartitions]) @
                tw_zones_events s @ power_events s\<rparr>"
    unfolding s5_def power_block_eq po by (simp add: s4)
  have ke: "keypad_events s5 = keypad_events s"
    by (rule keypad_events_cong) (simp_all add: s5)
  have "tw_status_pass stale s = keypad_blocks s5"
    by (simp add: tw_status_pass_def Let_def s5_def s4_def s3_def s2_def s1_def)
  also have "\<dots> = s\<lparr>bufferOverflow := False, keybusChanged := False,
       armedChanged := set_all False (enabled s) (armedChanged s),
       alarmChanged := set_all False (enabled s) (alarmChanged s),
       fireChanged := set_all False (enabled s) (fireChanged s),
       alarmZonesStatusChanged := False,
       alarmZonesChanged :=
         (if alarmZonesStatusChanged s then replicate dscZones 0 else alarmZonesChanged s),
       powerChanged := False,
       keypadFireAlarm := False, keypadAuxAlarm := False, keypadPanicAlarm := False,
       trace := trace s @ tw_pass_events stale s\<rparr>"
    unfolding keypad_blocks_eq ke by (simp add: s5 tw_pass_events_def)
  finally show ?thesis .
qed

section \<open>The changed-flags in the Twilio pass\<close>

lemma attempted_tw_partition_events: "attempted (tw_partition_events stale p s)"
  unfolding tw_partition_events_def
  by (auto intro!: attempted_append
        simp add: tw_armed_events_def tw_alarm_events_def tw_fire_events_def)

lemma attempted_tw_zones_events: "attempted (tw_zones_events s)"
  unfolding tw_zones_events_def tw_group_events_def
  by (auto intro!: attempted_concat simp add: tw_zone_events_def)

lemma attempted_keypad_events: "attempted (keypad_events s)"
  unfolding keypad_events_def by (intro attempted_append) simp_all

lemma attempted_tw_pass_events: "attempted (tw_pass_events stale s)"
  unfolding tw_pass_events_def
  by (intro attempted_append attempted_concat attempted_tw_zones_events attempted_keypad_events)
    (auto simp add: keybus_events_def power_events_def attempted_tw_partition_events)

lemma tw_consumed_set: "tw_consumed s (f, n) \<Longrightarrow> flag_set s f n"
  by (cases f) simp_all

lemma distinct_tw_flags: "distinct tw_flags"
  by code_simp

lemma clears_tw_partition_events:
  "clears (tw_partition_events stale p s) =
     filter (tw_consumed s) [(ArmedChanged, p), (AlarmChanged, p), (FireChanged, p)]"
  by (simp add: tw_partition_events_def tw_armed_events_def tw_alarm_events_def tw_fire_events_def)

lemma clears_tw_zone_events_list:
  "alarmZonesStatusChanged s \<Longrightarrow> \<forall>b \<in> set bs. b < 8 \<Longrightarrow>
   clears (concat (map (\<lambda>b. tw_zone_events g b s) bs)) =
     filter (tw_consumed s) (map (\<lambda>b. (AlarmZonesChanged, g * 8 + b)) bs)"
  by (induction bs) (simp_all add: tw_zone_events_def)

lemma clears_tw_zones_events:
  "clears (tw_zones_events s) =
     filter (tw_consumed s)
       (concat (map (\<lambda>g. map (\<lambda>b. (AlarmZonesChanged, g * 8 + b)) [0..<8]) [0..<dscZones]))"
proof (cases "alarmZonesStatusChanged s")
  case True
  then have "clears (tw_group_events g s) =
     filter (tw_consumed s) (map (\<lambda>b. (AlarmZonesChanged, g * 8 + b)) [0..<8])" for g
    unfolding tw_group_events_def by (rule clears_tw_zone_events_list) simp
  with True show ?thesis
    by (simp add: tw_zones_events_def clears_concat comp_def filter_concat del: upt_Suc)
next
  case False
  have "filter (tw_consumed s) (map (\<lambda>b. (AlarmZonesChanged, g * 8 + b)) bs) = []" for g bs
    using False by (induction bs) simp_all
  with False show ?thesis
    by (simp add: tw_zones_events_def filter_concat comp_def del: upt_Suc)
qed

lemma clears_tw_pass_events: "clears (tw_pass_events stale s) = filter (tw_consumed s) tw_flags"
  by (simp add: tw_pass_events_def tw_flags_def clears_concat comp_def filter_concat
        clears_tw_partition_events clears_tw_zones_events keybus_events_def power_events_def
        keypad_events_def del: upt_Suc)

lemma tw_status_pass_fields:
  assumes "length (alarmZonesChanged s) = dscZones"
  shows "keybusChanged (tw_status_pass stale s) = False"
    and "disabled (tw_status_pass stale s) = disabled s"
    and "armedChanged (tw_status_pass stale s) = set_all False (enabled s) (armedChanged s)"
    and "alarmChanged (tw_status_pass stale s) = set_all False (enabled s) (alarmChanged s)"
    and "fireChanged (tw_status_pass stale s) = set_all False (enabled s) (fireChanged s)"
    and "alarmZonesStatusChanged (tw_status_pass stale s) = False"
    and "powerChanged (tw_status_pass stale s) = False"
    and "keypadFireAlarm (tw_status_pass stale s) = False"
    and "keypadAuxAlarm (tw_status_pass stale s) = False"
    and "keypadPanicAlarm (tw_status_pass stale s) = False"
    and "length (alarmZonesChanged (tw_status_pass stale s)) = dscZones"
    and "trace (tw_status_pass stale s) = trace s @ tw_pass_events stale s"
  using assms by (simp_all add: tw_status_pass_eq [OF assms])

lemma tw_second_pass_events:
  assumes "wf s"
  shows "tw_pass_events stale (tw_status_pass stale s) = []"
proof -
  let ?s1 = "tw_status_pass stale s"
  have len: "length (alarmZonesChanged s) = dscZones"
    using assms by (simp add: wf_def)
  note f = tw_status_pass_fields [OF len, of stale]
  have "tw_partition_events stale p ?s1 = []" if "p < dscPartitions" for p
  proof (cases "disabled s ! p")
    case True
    then show ?thesis
      by (simp add: tw_partition_events_def f(2))
  next
    case False
    with that have e: "p \<in> set (enabled s)"
      by (simp add: enabled_def)
    have "\<not> armedChanged ?s1 ! p"
      using that assms e unfolding f(3) by (simp add: wf_def nth_set_all)
    moreover have "\<not> alarmChanged ?s1 ! p"
      using that assms e unfolding f(4) by (simp add: wf_def nth_set_all)
    moreover have "\<not> fireChanged ?s1 ! p"
      using that assms e unfolding f(5) by (simp add: wf_def nth_set_all)
    ultimately show ?thesis
      by (simp add: tw_partition_events_def tw_armed_events_def tw_alarm_events_def
            tw_fire_events_def)
  qed
  then have "concat (map (\<lambda>p. tw_partition_events stale p ?s1) [0..<dscPartitions]) = []"
    by simp
  moreover have "keybus_events ?s1 = []"
    by (simp add: keybus_events_def f(1))
  moreover have "tw_zones_events ?s1 = []"
    by (simp add: tw_zones_events_def f(6))
  moreover have "power_events ?s1 = []"
    by (simp add: power_events_def f(7))
  moreover have "keypad_events ?s1 = []"
    by (simp add: keypad_events_def f(8) f(9) f(10))
  ultimately show ?thesis
    by (simp add: tw_pass_events_def)
qed

lemma tw_second_pass_trace:
  assumes "wf s"
  shows "trace (tw_status_pass stale (tw_status_pass stale s)) = trace (tw_status_pass stale s)"
proof -
  have len: "length (alarmZonesChanged s) = dscZones"
    using assms by (simp add: wf_def)
  have len1: "length (alarmZonesChanged (tw_status_pass stale s)) = dscZones"
    by (rule tw_status_pass_fields(11) [OF len])
  show ?thesis
    unfolding tw_status_pass_fields(12) [OF len1] tw_second_pass_events [OF assms] by simp
qed

lemma tw_pass_events_statusChanged:
  "tw_pass_events stale (s\<lparr>statusChanged := b\<rparr>) = tw_pass_events stale s"
proof -
  have "tw_partition_events stale p (s\<lparr>statusChanged := b\<rparr>) = tw_partition_events stale p s" for p
    by (rule tw_partition_events_cong) simp_all
  moreover have "tw_zones_events (s\<lparr>statusChanged := b\<rparr>) = tw_zones_events s"
    by (rule tw_zones_events_cong) simp_all
  ultimately show ?thesis
    by (simp add: tw_pass_events_def keybus_events_def power_events_def keypad_events_def)
qed

lemma tw_loop_status_trace:
  assumes "length (alarmZonesChanged s) = dscZones" "statusChanged s"
  shows "trace (tw_loop_status stale s) = trace s @ tw_pass_events stale s"
  using assms
  by (simp add: tw_loop_status_def tw_status_pass_fields(12) tw_pass_events_statusChanged)

lemma tw_discipline:
  assumes "wf s" and "statusChanged s"
  shows "\<exists>es. trace (tw_loop_status stale s) = trace s @ es \<and>
           attempted es \<and> (\<forall>(f, n) \<in> set (clears es). flag_set s f n) \<and>
           distinct (clears es) \<and>
           trace (tw_status_pass stale (tw_loop_status stale s)) = trace (tw_loop_status stale s)"
proof -
  let ?s0 = "s\<lparr>statusChanged := False\<rparr>"
  have len: "length (alarmZonesChanged s) = dscZones"
    using assms(1) by (simp add: wf_def)
  have wf0: "wf ?s0"
    using assms(1) by (simp add: wf_def)
  have ls: "tw_loop_status stale s = tw_status_pass stale ?s0"
    using assms(2) by (simp add: tw_loop_status_def)
  have "trace (tw_loop_status stale s) = trace s @ tw_pass_events stale s"
    using len assms(2) by (rule tw_loop_status_trace)
  moreover have "attempted (tw_pass_events stale s)"
    by (rule attempted_tw_pass_events)
  moreover have "\<forall>(f, n) \<in> set (clears (tw_pass_events stale s)). flag_set s f n"
    by (auto simp add: clears_tw_pass_events intro: tw_consumed_set)
  moreover have "distinct (clears (tw_pass_events stale s))"
    unfolding clears_tw_pass_events using distinct_tw_flags by (rule distinct_filter)
  moreover have "trace (tw_status_pass stale (tw_loop_status stale s)) =
                 trace (tw_loop_status stale s)"
    unfolding ls using wf0 by (rule tw_second_pass_trace)
  ultimately show ?thesis by blast
qed

lemma tw_busy_trace:
  "trace (tw_loop_status [] tw_busy) =
     [Clear KeybusChanged 0, Push ''Security system '' ''connected'',
      Clear ArmedChanged 0, Push ''Security system '' ''disarmed: partition 1'',
      Clear AlarmZonesChanged 4, Push [] ''Security zone alarm: 5'',
      Clear KeypadPanicAlarm 0, Push ''Security system '' ''panic alarm button pressed'']"
  by code_simp

section \<open>The exchange with the server\<close>

lemma await_response_iff:
  "await_response previousMillis ws \<longleftrightarrow> (\<forall>now \<in> set ws. now - previousMillis \<le> 3000)"
  by (induction ws) (auto simp add: not_less)

lemma of_char_space: "(of_char c :: int) = 32 \<longleftrightarrow> c = CHR '' ''"
proof -
  have "(of_char CHR '' '' :: int) = 32" by simp
  then show ?thesis by (metis of_char_eq_iff)
qed

lemma of_char_two: "(of_char c :: int) = 50 \<longleftrightarrow> c = CHR ''2''"
proof -
  have "(of_char CHR ''2'' :: int) = 50" by simp
  then show ?thesis by (metis of_char_eq_iff)
qed

lemma skip_to_space_split:
  "CHR '' '' \<notin> set line \<Longrightarrow> skip_to_space (line @ CHR '' '' # rest) = rest"
  by (induction line) (auto simp add: of_char_space)

lemma skip_to_space_no_space:
  "CHR '' '' \<notin> set rx \<Longrightarrow> skip_to_space rx = []"
  by (induction rx) (auto simp add: of_char_space)

lemma split_at_space:
  "CHR '' '' \<in> set rx \<Longrightarrow> \<exists>line rest. rx = line @ CHR '' '' # rest \<and> CHR '' '' \<notin> set line"
  by (metis split_list_first)

lemma statusCode_read: "statusCode rx = 50 \<longleftrightarrow> (\<exists>rest. skip_to_space rx = CHR ''2'' # rest)"
proof (cases "skip_to_space rx")
  case Nil
  then show ?thesis by (simp add: statusCode_def)
next
  case (Cons c cs)
  have "(of_char c :: int) mod 256 = of_char c"
    by simp
  with Cons show ?thesis
    by (simp add: statusCode_def of_char_two)
qed

lemma statusCode_iff:
  "statusCode rx = 50 \<longleftrightarrow>
     (\<exists>line rest. rx = line @ CHR '' '' # CHR ''2'' # rest \<and> CHR '' '' \<notin> set line)"
proof
  assume l: "statusCode rx = 50"
  then obtain rest where r: "skip_to_space rx = CHR ''2'' # rest"
    using statusCode_read by blast
  have "CHR '' '' \<in> set rx"
  proof (rule ccontr)
    assume "CHR '' '' \<notin> set rx"
    then have "skip_to_space rx = []" by (rule skip_to_space_no_space)
    with r show False by simp
  qed
  then obtain line tl where s: "rx = line @ CHR '' '' # tl" "CHR '' '' \<notin> set line"
    using split_at_space by blast
  then have "skip_to_space rx = tl"
    by (simp add: skip_to_space_split)
  with r s show "\<exists>line rest. rx = line @ CHR '' '' # CHR ''2'' # rest \<and> CHR '' '' \<notin> set line"
    by auto
next
  assume "\<exists>line rest. rx = line @ CHR '' '' # CHR ''2'' # rest \<and> CHR '' '' \<notin> set line"
  then obtain line rest where "rx = line @ CHR '' '' # CHR ''2'' # rest" "CHR '' '' \<notin> set line"
    by blast
  then have "skip_to_space rx = CHR ''2'' # rest"
    by (simp add: skip_to_space_split)
  then show "statusCode rx = 50"
    using statusCode_read by blast
qed

lemma http_classification:
  "fst (sendPush sec (net\<lparr>connects := True, waits := [], response := ''HTTP/1.1 200 OK''\<rparr>) prefix msg)"
  "fst (sendPush sec (net\<lparr>connects := True, waits := [], response := ''HTTP/1.1 201 Created''\<rparr>) prefix msg)"
  "\<not> fst (sendPush sec (net\<lparr>connects := True, waits := [], response := ''HTTP/1.1 404 Not Found''\<rparr>) prefix msg)"
  "\<not> fst (sendPush sec (net\<lparr>connects := True, waits := [], response := ''HTTP/1.1 500 Error''\<rparr>) prefix msg)"
  "\<not> fst (sendPush sec (net\<lparr>connects := True, started := 0, waits := [1000, 2000, 3001]\<rparr>) prefix msg)"
  "\<not> fst (sendPush sec (net\<lparr>connects := False\<rparr>) prefix msg)"
  by (simp_all add: sendPush_def Let_def statusCode_def)

section \<open>The claims of the specification\<close>

text \<open>
  C1, as the code has it. In a pass of the loop of the OpenHAB-MQTT sketch every publish
  comes right after the reset of a changed-flag that was set when the pass began, on the
  topic of that flag; a reset is followed by its publish unless the flag is silent
  (armed with neither mode, exit delay over on an armed partition, alarm off), and then
  the flag is reset with no message; no flag is reset twice; and a second pass right
  after it resets and publishes nothing. In a pass of the loop of the Twilio sketch the
  trace consists of resets of flags that were set, each followed at once by a call of
  \<open>sendPush\<close>; no flag is reset twice, and a second pass right after it does nothing.
\<close>

theorem pass_flag_discipline:
  assumes "wf s" and "statusChanged s"
  shows "(\<exists>es. trace (loop_status accessCode s) = trace s @ es \<and>
            disciplined s es \<and> distinct (clears es) \<and>
            trace (status_pass accessCode (loop_status accessCode s)) =
              trace (loop_status accessCode s) @ [Subscribe mqttSubscribeTopic]) \<and>
         (\<exists>es. trace (tw_loop_status stale s) = trace s @ es \<and>
            attempted es \<and> (\<forall>(f, n) \<in> set (clears es). flag_set s f n) \<and>
            distinct (clears es) \<and>
            trace (tw_status_pass stale (tw_loop_status stale s)) = trace (tw_loop_status stale s))"
proof -
  let ?s0 = "s\<lparr>statusChanged := False\<rparr>"
  have len: "length (openZonesChanged s) = dscZones"
    using assms(1) by (simp add: wf_def)
  have wf0: "wf ?s0"
    using assms(1) by (simp add: wf_def)
  have ls: "loop_status accessCode s = status_pass accessCode ?s0"
    using assms(2) by (simp add: loop_status_def)
  have "trace (loop_status accessCode s) = trace s @ pass_events accessCode s"
    using len assms(2) by (rule loop_status_trace)
  moreover have "disciplined s (pass_events accessCode s)"
    by (rule disciplined_pass_events)
  moreover have "distinct (clears (pass_events accessCode s))"
    by (rule distinct_clears_pass_events)
  moreover have "trace (status_pass accessCode (loop_status accessCode s)) =
             trace (loop_status accessCode s) @ [Subscribe mqttSubscribeTopic]"
    unfolding ls using wf0 by (rule second_pass_trace)
  ultimately have "\<exists>es. trace (loop_status accessCode s) = trace s @ es \<and>
            disciplined s es \<and> distinct (clears es) \<and>
            trace (status_pass accessCode (loop_status accessCode s)) =
              trace (loop_status accessCode s) @ [Subscribe mqttSubscribeTopic]"
    by blast
  then show ?thesis
    using tw_discipline [OF assms, of stale] by (rule conjI)
qed

theorem pass_flag_discipline_witness:
  "trace (loop_status ''1234'' busy) =
     [PanelWrite 1 ''1234'',
      Clear ArmedChanged 0, Publish ''dsc/Get/Partition1'' ''1A'' True,
      Clear AlarmChanged 1,
      Clear FireChanged 2, Publish ''dsc/Get/Fire3'' ''31'' True,
      Clear OpenZonesChanged 4, Publish ''dsc/Get/Zone5'' ''1'' True,
      Subscribe ''dsc/Set''] \<and>
   disciplined busy (trace (loop_status ''1234'' busy)) \<and>
   distinct (clears (trace (loop_status ''1234'' busy))) \<and>
   attempted (trace (tw_loop_status [] busy))"
proof -
  have w: "wf busy"
    by (simp add: wf_def busy_def idle_def dscPartitions_def dscZones_def)
  have c: "statusChanged busy"
    by (simp add: busy_def)
  have t: "trace busy = []"
    by (simp add: busy_def idle_def)
  have e: "trace (loop_status ''1234'' busy) =
     [PanelWrite 1 ''1234'',
      Clear ArmedChanged 0, Publish ''dsc/Get/Partition1'' ''1A'' True,
      Clear AlarmChanged 1,
      Clear FireChanged 2, Publish ''dsc/Get/Fire3'' ''31'' True,
      Clear OpenZonesChanged 4, Publish ''dsc/Get/Zone5'' ''1'' True,
      Subscribe ''dsc/Set'']"
    by code_simp
  from pass_flag_discipline [OF w c, of "''1234''" "[]"] t
  have "disciplined busy (trace (loop_status ''1234'' busy)) \<and>
        distinct (clears (trace (loop_status ''1234'' busy))) \<and>
        attempted (trace (tw_loop_status [] busy))"
    by auto
  with e show ?thesis by blast
qed

text \<open>
  C1 as stated fails: when the alarm of partition 1 is over, the pass resets the
  flag \<open>alarmChanged[0]\<close> and publishes nothing.
\<close>

theorem alarm_flag_reset_without_message:
  "alarmChanged alarm_restored_1 ! 0 \<and>
   \<not> alarmChanged (loop_status ''1234'' alarm_restored_1) ! 0 \<and>
   trace (loop_status ''1234'' alarm_restored_1) = [Clear AlarmChanged 0, Subscribe ''dsc/Set'']"
  by code_simp

text \<open>
  C2: for a zone group g and bit b below 8 whose changed bit is set, the scan resets
  exactly that bit and publishes, on the zone topic followed by the decimal g * 8 + b + 1,
  the payload 1 when the zone's bit in \<open>openZones\<close> is set and 0 otherwise; the whole
  scan publishes this for the set bits in order of group and then bit, leaves no changed
  bit set and does not touch \<open>openZones\<close>, and a scan right after it adds nothing.
\<close>

theorem zone_scan_publishes:
  assumes "length (openZonesChanged s) = dscZones"
  shows "(\<forall>g < dscZones. \<forall>b < 8. bit (openZonesChanged s ! g) b \<longrightarrow>
            openZonesChanged (zone_step g b s) =
              (openZonesChanged s)[g := unset_bit b (openZonesChanged s ! g)] \<and>
            trace (zone_step g b s) =
              trace s @ [Clear OpenZonesChanged (g * 8 + b),
                         Publish (mqttZoneTopic @ itoa (g * 8 + b + 1))
                           (if bit (openZones s ! g) b then ''1'' else ''0'') True]) \<and>
         publishes (trace (zones_scan s)) =
           publishes (trace s) @
           [(mqttZoneTopic @ itoa (g * 8 + b + 1), if bit (openZones s ! g) b then ''1'' else ''0'').
              g \<leftarrow> [0..<dscZones], b \<leftarrow> [0..<8], bit (openZonesChanged s ! g) b] \<and>
         (\<forall>g < dscZones. openZonesChanged (zones_scan s) ! g = 0) \<and>
         openZones (zones_scan s) = openZones s \<and>
         trace (zones_scan (zones_scan s)) = trace (zones_scan s)"
proof -
  have step: "\<forall>g < dscZones. \<forall>b < 8. bit (openZonesChanged s ! g) b \<longrightarrow>
            openZonesChanged (zone_step g b s) =
              (openZonesChanged s)[g := unset_bit b (openZonesChanged s ! g)] \<and>
            trace (zone_step g b s) =
              trace s @ [Clear OpenZonesChanged (g * 8 + b),
                         Publish (mqttZoneTopic @ itoa (g * 8 + b + 1))
                           (if bit (openZones s ! g) b then ''1'' else ''0'') True]"
    by (simp add: zone_step_eq zone_events_def)
  have cleared: "\<forall>g < dscZones. openZonesChanged (zones_scan s) ! g = 0"
    by (simp add: zones_scan_eq [OF assms])
  have kept: "openZones (zones_scan s) = openZones s"
    by (simp add: zones_scan_eq [OF assms])
  from step publishes_zones_scan [OF assms] cleared kept rescan_silent [OF assms]
  show ?thesis by (intro conjI)
qed

theorem zone_scan_publishes_witness:
  "publishes (trace (zones_scan zones_5_10)) = [(''dsc/Get/Zone5'', ''1''), (''dsc/Get/Zone10'', ''0'')]
   \<and> openZonesChanged (zones_scan zones_5_10) ! 0 = 0"
proof -
  have len: "length (openZonesChanged zones_5_10) = dscZones"
    by (simp add: zones_5_10_def idle_def dscZones_def)
  have z: "(0::nat) < dscZones"
    by (simp add: dscZones_def)
  have "publishes (trace (zones_scan zones_5_10)) = [(''dsc/Get/Zone5'', ''1''), (''dsc/Get/Zone10'', ''0'')]"
    by code_simp
  moreover have "openZonesChanged (zones_scan zones_5_10) ! 0 = 0"
    using zone_scan_publishes [OF len] z by blast
  ultimately show ?thesis ..
qed

text \<open>
  C3: \<open>sendPush\<close> returns true exactly when the connection is made, no turn of the wait
  loop finds more than 3000 ms gone before a byte is available, and in the bytes received
  the character after the first space is 2. A failed connection, a timeout and any other
  character there all yield false.
\<close>

theorem sendPush_delivered_iff:
  "fst (sendPush sec net prefix pushMessage) \<longleftrightarrow>
     connects net \<and>
     (\<forall>now \<in> set (waits net). now - started net \<le> 3000) \<and>
     (\<exists>line rest. response net = line @ CHR '' '' # CHR ''2'' # rest \<and> CHR '' '' \<notin> set line)"
  by (simp add: sendPush_def Let_def await_response_iff statusCode_iff)

theorem sendPush_delivered_iff_witness:
  "fst (sendPush some_secrets quick_200 ''Security system '' ''initializing'')"
proof -
  have "connects quick_200"
    by (simp add: quick_200_def)
  moreover have "\<forall>now \<in> set (waits quick_200). now - started quick_200 \<le> 3000"
    by (simp add: quick_200_def)
  moreover have "response quick_200 = ''HTTP/1.1'' @ CHR '' '' # CHR ''2'' # ''00 OK'' \<and>
                 CHR '' '' \<notin> set ''HTTP/1.1''"
    by (simp add: quick_200_def)
  ultimately show ?thesis
    using sendPush_delivered_iff [of some_secrets quick_200 "''Security system ''" "''initializing''"]
    by blast
qed

text \<open>
  C4, as the code has it: a successful \<open>mqttConnect\<close> of the OpenHAB-MQTT sketch, the
  first one in \<open>setup\<close> included, calls \<open>resetStatus\<close>, after which every changed-flag
  of the partitions and every changed bit of the zones is set, whatever the state was.
  The next pass of the loop resets each of these flags once, in the order of the loop,
  publishes the fire state of every partition and the state of every zone, and publishes
  the armed, exit-delay and alarm messages as the guards of the loop allow; a second
  pass publishes nothing.
\<close>

theorem mqtt_connect_resync:
  assumes "wf s"
  shows "\<exists>s'. mqttConnect True connected s = (connected, s') \<and>
      statusChanged s' \<and> openZonesStatusChanged s' \<and>
      (\<forall>(f, n) \<in> set (partition_flags @ zone_flags). flag_set s' f n) \<and>
      (\<exists>es. trace (loop_status accessCode s') = trace s @ es \<and>
         clears es = partition_flags @ zone_flags \<and> disciplined s' es \<and>
         (\<forall>p < dscPartitions.
            (mqttFireTopic @ itoa (p + 1), itoa (p + 1) @ (if fire s ! p then ''1'' else ''0''))
              \<in> set (publishes es)) \<and>
         (\<forall>g < dscZones. \<forall>b < 8.
            (mqttZoneTopic @ itoa (g * 8 + b + 1), if bit (openZones s ! g) b then ''1'' else ''0'')
              \<in> set (publishes es))) \<and>
      trace (status_pass accessCode (loop_status accessCode s')) =
        trace (loop_status accessCode s') @ [Subscribe mqttSubscribeTopic]"
proof -
  let ?s' = "resetStatus s"
  let ?es = "pass_events accessCode ?s'"
  note f = resetStatus_fields [OF assms]
  have len: "length (openZonesChanged ?s') = dscZones"
    using f(9) by (simp add: wf_def)
  have tr: "trace (loop_status accessCode ?s') = trace s @ ?es"
    using loop_status_trace [OF len f(6), of accessCode] by (simp add: f(8))
  have fl: "\<forall>(f, n) \<in> set (partition_flags @ zone_flags). flag_set ?s' f n"
    using flags_set_resetStatus [OF assms] by blast
  have fire: "(mqttFireTopic @ itoa (p + 1), itoa (p + 1) @ (if fire s ! p then ''1'' else ''0''))
              \<in> set (publishes ?es)" if "p < dscPartitions" for p
  proof -
    have "fire ?s' = fire s"
      by (simp add: resetStatus_def)
    then have "(mqttFireTopic @ itoa (p + 1), itoa (p + 1) @ (if fire s ! p then ''1'' else ''0''))
              \<in> set (publishes (partition_events p ?s'))"
      using that by (simp add: partition_events_def fire_events_def f(4))
    with that show ?thesis
      by (rule partition_publish_in_pass)
  qed
  have zone: "(mqttZoneTopic @ itoa (g * 8 + b + 1), if bit (openZones s ! g) b then ''1'' else ''0'')
              \<in> set (publishes ?es)" if "g < dscZones" "b < 8" for g b
  proof -
    have "openZones ?s' = openZones s"
      by (simp add: resetStatus_def)
    moreover have "bit (openZonesChanged ?s' ! g) b"
    proof -
      have "openZonesChanged ?s' ! g = 255"
        using that(1) by (simp add: f(5))
      moreover have "bit (255 :: byte) b"
        using that(2) by (simp only: bit_255)
      ultimately show ?thesis by simp
    qed
    ultimately have "(mqttZoneTopic @ itoa (g * 8 + b + 1), if bit (openZones s ! g) b then ''1'' else ''0'')
              \<in> set (publishes (zone_events g b ?s'))"
      by (simp add: publishes_zone_events)
    with f(7) that show ?thesis
      by (rule zone_publish_in_pass)
  qed
  have second: "trace (status_pass accessCode (loop_status accessCode ?s')) =
        trace (loop_status accessCode ?s') @ [Subscribe mqttSubscribeTopic]"
  proof -
    have "wf (?s'\<lparr>statusChanged := False\<rparr>)"
      using f(9) by (simp add: wf_def)
    then show ?thesis
      using f(6) by (simp add: loop_status_def second_pass_trace)
  qed
  have "mqttConnect True connected s = (connected, ?s')"
    by (rule mqttConnect_ok)
  moreover note f(6) f(7) fl
  moreover have "\<exists>es. trace (loop_status accessCode ?s') = trace s @ es \<and>
         clears es = partition_flags @ zone_flags \<and> disciplined ?s' es \<and>
         (\<forall>p < dscPartitions.
            (mqttFireTopic @ itoa (p + 1), itoa (p + 1) @ (if fire s ! p then ''1'' else ''0''))
              \<in> set (publishes es)) \<and>
         (\<forall>g < dscZones. \<forall>b < 8.
            (mqttZoneTopic @ itoa (g * 8 + b + 1), if bit (openZones s ! g) b then ''1'' else ''0'')
              \<in> set (publishes es))"
    using tr clears_after_reset [OF assms, of accessCode] disciplined_pass_events [of ?s' accessCode]
      fire zone by blast
  moreover note second
  ultimately show ?thesis by blast
qed

theorem mqtt_connect_resync_witness:
  "(''dsc/Get/Zone64'', ''0'')
     \<in> set (publishes (trace (loop_status ''1234'' (snd (mqttConnect True True idle)))))"
proof -
  from mqtt_connect_resync [OF wf_idle, of True "''1234''"]
  obtain s' es where c: "mqttConnect True True idle = (True, s')"
    and t: "trace (loop_status ''1234'' s') = trace idle @ es"
    and z: "\<forall>g < dscZones. \<forall>b < 8.
            (mqttZoneTopic @ itoa (g * 8 + b + 1), if bit (openZones idle ! g) b then ''1'' else ''0'')
              \<in> set (publishes es)"
    by blast
  have "(7 :: nat) < dscZones" "(7 :: nat) < 8"
    by (simp_all add: dscZones_def)
  with z have "(mqttZoneTopic @ itoa (7 * 8 + 7 + 1), if bit (openZones idle ! 7) 7 then ''1'' else ''0'')
              \<in> set (publishes es)"
    by blast
  moreover have "itoa (7 * 8 + 7 + 1) = ''64''"
    by (simp add: itoa.simps digit_def)
  moreover have "\<not> bit (openZones idle ! 7) 7"
    by (simp add: idle_def)
  moreover have "trace idle = []"
    by (simp add: idle_def)
  ultimately show ?thesis
    using c t by (simp add: mqttZoneTopic_def)
qed

text \<open>
  C4 as stated fails on the Twilio sketch: when the WiFi link comes back the loop
  sets \<open>statusChanged\<close> and resets \<open>pauseStatus\<close>, and sets no changed-flag of any fact,
  so the next pass sends nothing.
\<close>

theorem wifi_reconnect_sets_no_changed_flag:
  "wifiConnected (wifi_block True True offline) \<and>
   statusChanged (wifi_block True True offline) \<and>
   \<not> armedChanged (wifi_block True True offline) ! 0 \<and>
   \<not> fireChanged (wifi_block True True offline) ! 0 \<and>
   \<not> powerChanged (wifi_block True True offline) \<and>
   trace (tw_loop_status [] (wifi_block True True offline)) = []"
  by code_simp

text \<open>
  C5, as the code has it: in the loop of the Twilio SMS sketch a partition whose disabled
  flag is set is passed over. Its turn in the loop over the partitions leaves the state
  as it is, the loop over all partitions is the loop over those that are not disabled, and
  the whole pass leaves everything the \<open>dsc\<close> object holds about the partition as it was.
\<close>

theorem disabled_partition_skipped:
  assumes "disabled s ! p"
  shows "tw_partition_step stale p s = s \<and>
         tw_partitions_loop stale s =
           fold (tw_partition_step stale) [q \<leftarrow> [0..<dscPartitions]. \<not> disabled s ! q] s \<and>
         part_view p (tw_loop_status stale s) = part_view p s"
proof -
  have "part_view p (tw_loop_status stale s) = part_view p s"
  proof (cases "statusChanged s")
    case True
    have "disabled (s\<lparr>statusChanged := False\<rparr>) ! p"
      using assms by simp
    then have "part_view p (tw_status_pass stale (s\<lparr>statusChanged := False\<rparr>)) =
               part_view p (s\<lparr>statusChanged := False\<rparr>)"
      by (rule part_view_tw_status_pass)
    with True show ?thesis
      by (simp add: tw_loop_status_def part_view_def)
  next
    case False
    then show ?thesis by (simp add: tw_loop_status_def)
  qed
  moreover have "tw_partition_step stale p s = s"
    using assms by (rule tw_partition_step_disabled)
  moreover have "tw_partitions_loop stale s =
           fold (tw_partition_step stale) [q \<leftarrow> [0..<dscPartitions]. \<not> disabled s ! q] s"
    unfolding tw_partitions_loop_def by (rule fold_tw_partition_step_skip)
  ultimately show ?thesis by blast
qed

theorem disabled_partition_skipped_witness:
  "trace (tw_loop_status [] disabled_1) = [] \<and>
   armedChanged (tw_loop_status [] disabled_1) ! 0"
proof -
  have d: "disabled disabled_1 ! 0"
    by (simp add: disabled_1_def idle_def)
  have a: "part_view 0 disabled_1 ! 4"
    by (simp add: part_view_def disabled_1_def idle_def)
  from disabled_partition_skipped [OF d, of "[]"]
  have "part_view 0 (tw_loop_status [] disabled_1) ! 4"
    using a by simp
  then have "armedChanged (tw_loop_status [] disabled_1) ! 0"
    by (simp add: part_view_def)
  moreover have "trace (tw_loop_status [] disabled_1) = []"
    by code_simp
  ultimately show ?thesis by blast
qed

text \<open>
  C5 as stated fails on the loop of the OpenHAB-MQTT sketch, which never reads
  \<open>disabled\<close>: it resets the armed flag of the disabled partition 1 and publishes 1D.
\<close>

theorem openhab_processes_disabled_partition:
  "disabled disabled_1 ! 0 \<and> armedChanged disabled_1 ! 0 \<and>
   \<not> armedChanged (loop_status ''1234'' disabled_1) ! 0 \<and>
   publishes (trace (loop_status ''1234'' disabled_1)) = [(''dsc/Get/Partition1'', ''1D'')]"
  by code_simp

text \<open>
  C6: in a pass of the loop, the message for a fact of partition N (index p = N - 1) goes
  to the partition topic followed by the decimal N, with payload the decimal N followed by
  the letter of the fact: A armed away, S armed stay, D disarmed, P exit delay, T alarm.
  The message \<open>publishState\<close> publishes is the same in every state, and arming partition 1
  away yields the single publish of 1A to dsc/Get/Partition1.
\<close>

theorem partition_fact_encoding:
  assumes "length (openZonesChanged s) = dscZones" and "statusChanged s" and "p < dscPartitions"
  shows "(\<exists>es. trace (loop_status accessCode s) = trace s @ es \<and>
      (armedChanged s ! p \<and> armed s ! p \<and> armedAway s ! p \<longrightarrow>
         (mqttPartitionTopic @ itoa (p + 1), itoa (p + 1) @ ''A'') \<in> set (publishes es)) \<and>
      (armedChanged s ! p \<and> armed s ! p \<and> \<not> armedAway s ! p \<and> armedStay s ! p \<longrightarrow>
         (mqttPartitionTopic @ itoa (p + 1), itoa (p + 1) @ ''S'') \<in> set (publishes es)) \<and>
      (armedChanged s ! p \<and> \<not> armed s ! p \<longrightarrow>
         (mqttPartitionTopic @ itoa (p + 1), itoa (p + 1) @ ''D'') \<in> set (publishes es)) \<and>
      (exitDelayChanged s ! p \<and> exitDelay s ! p \<longrightarrow>
         (mqttPartitionTopic @ itoa (p + 1), itoa (p + 1) @ ''P'') \<in> set (publishes es)) \<and>
      (alarmChanged s ! p \<and> alarm s ! p \<longrightarrow>
         (mqttPartitionTopic @ itoa (p + 1), itoa (p + 1) @ ''T'') \<in> set (publishes es))) \<and>
    trace (publishState sourceTopic q sourceSuffix s') =
      trace s' @ [Publish (sourceTopic @ itoa (q + 1)) (itoa (q + 1) @ sourceSuffix) True] \<and>
    publishes (trace (loop_status accessCode armed_away_1)) = [(''dsc/Get/Partition1'', ''1A'')]"
proof -
  let ?es = "pass_events accessCode s"
  have tr: "trace (loop_status accessCode s) = trace s @ ?es"
    using assms(1,2) by (rule loop_status_trace)
  have sub: "m \<in> set (publishes ?es)" if "m \<in> set (publishes (partition_events p s))" for m
    using assms(3) that by (rule partition_publish_in_pass)
  have a: "armedChanged s ! p \<and> armed s ! p \<and> armedAway s ! p \<longrightarrow>
         (mqttPartitionTopic @ itoa (p + 1), itoa (p + 1) @ ''A'') \<in> set (publishes ?es)"
    by (auto intro!: sub simp add: partition_events_def armed_events_def)
  have b: "armedChanged s ! p \<and> armed s ! p \<and> \<not> armedAway s ! p \<and> armedStay s ! p \<longrightarrow>
         (mqttPartitionTopic @ itoa (p + 1), itoa (p + 1) @ ''S'') \<in> set (publishes ?es)"
    by (auto intro!: sub simp add: partition_events_def armed_events_def)
  have c: "armedChanged s ! p \<and> \<not> armed s ! p \<longrightarrow>
         (mqttPartitionTopic @ itoa (p + 1), itoa (p + 1) @ ''D'') \<in> set (publishes ?es)"
    by (auto intro!: sub simp add: partition_events_def armed_events_def)
  have d: "exitDelayChanged s ! p \<and> exitDelay s ! p \<longrightarrow>
         (mqttPartitionTopic @ itoa (p + 1), itoa (p + 1) @ ''P'') \<in> set (publishes ?es)"
    by (auto intro!: sub simp add: partition_events_def exitDelay_events_def)
  have e: "alarmChanged s ! p \<and> alarm s ! p \<longrightarrow>
         (mqttPartitionTopic @ itoa (p + 1), itoa (p + 1) @ ''T'') \<in> set (publishes ?es)"
    by (auto intro!: sub simp add: partition_events_def alarm_events_def)
  from tr a b c d e
  have pass: "\<exists>es. trace (loop_status accessCode s) = trace s @ es \<and>
      (armedChanged s ! p \<and> armed s ! p \<and> armedAway s ! p \<longrightarrow>
         (mqttPartitionTopic @ itoa (p + 1), itoa (p + 1) @ ''A'') \<in> set (publishes es)) \<and>
      (armedChanged s ! p \<and> armed s ! p \<and> \<not> armedAway s ! p \<and> armedStay s ! p \<longrightarrow>
         (mqttPartitionTopic @ itoa (p + 1), itoa (p + 1) @ ''S'') \<in> set (publishes es)) \<and>
      (armedChanged s ! p \<and> \<not> armed s ! p \<longrightarrow>
         (mqttPartitionTopic @ itoa (p + 1), itoa (p + 1) @ ''D'') \<in> set (publishes es)) \<and>
      (exitDelayChanged s ! p \<and> exitDelay s ! p \<longrightarrow>
         (mqttPartitionTopic @ itoa (p + 1), itoa (p + 1) @ ''P'') \<in> set (publishes es)) \<and>
      (alarmChanged s ! p \<and> alarm s ! p \<longrightarrow>
         (mqttPartitionTopic @ itoa (p + 1), itoa (p + 1) @ ''T'') \<in> set (publishes es))"
    by blast
  have enc: "trace (publishState sourceTopic q sourceSuffix s') =
           trace s' @ [Publish (sourceTopic @ itoa (q + 1)) (itoa (q + 1) @ sourceSuffix) True]"
    by (simp add: publishState_def mqtt_publish_def emit_def Let_def)
  have one: "publishes (trace (loop_status accessCode armed_away_1)) = [(''dsc/Get/Partition1'', ''1A'')]"
    by code_simp
  from pass enc one show ?thesis
    by (intro conjI)
qed

theorem partition_fact_encoding_witness:
  "(''dsc/Get/Partition1'', ''1A'') \<in> set (publishes (trace (loop_status ''1234'' armed_away_1)))"
  using partition_fact_encoding [of armed_away_1 0 "''1234''"]
  by (simp add: armed_away_1_def idle_def dscZones_def dscPartitions_def mqttPartitionTopic_def itoa_1)

text \<open>
  C7: a partition whose exit-delay flag is consumed while it is neither in exit delay nor
  armed still gets the disarmed message: the pass publishes the payload N followed by D
  on the partition topic N.
\<close>

theorem exit_delay_ended_disarmed:
  assumes "length (openZonesChanged s) = dscZones" and "statusChanged s"
    and "p < dscPartitions"
    and "exitDelayChanged s ! p" and "\<not> exitDelay s ! p" and "\<not> armed s ! p"
  shows "\<exists>es. trace (loop_status accessCode s) = trace s @ es \<and>
           (mqttPartitionTopic @ itoa (p + 1), itoa (p + 1) @ ''D'') \<in> set (publishes es)"
proof -
  have "(mqttPartitionTopic @ itoa (p + 1), itoa (p + 1) @ ''D'')
          \<in> set (publishes (partition_events p s))"
    using assms(4-6) by (simp add: partition_events_def exitDelay_events_def)
  then have "(mqttPartitionTopic @ itoa (p + 1), itoa (p + 1) @ ''D'')
          \<in> set (publishes (pass_events accessCode s))"
    using assms(3) by (rule partition_publish_in_pass [rotated])
  then show ?thesis
    using loop_status_trace [OF assms(1,2)] by blast
qed

theorem exit_delay_ended_disarmed_witness:
  "(''dsc/Get/Partition1'', ''1D'') \<in> set (publishes (trace (loop_status ''1234''
      (idle\<lparr>statusChanged := True,
            exitDelayChanged := [True, False, False, False, False, False, False, False]\<rparr>))))"
  using exit_delay_ended_disarmed [of
      "idle\<lparr>statusChanged := True,
            exitDelayChanged := [True, False, False, False, False, False, False, False]\<rparr>" 0 "''1234''"]
  by (simp add: idle_def dscZones_def dscPartitions_def mqttPartitionTopic_def itoa_1)

text \<open>
  C8: the number in the Content-Length header is not the number of bytes of the body. It
  is one more than the length of the body To=+, the number, &From=+, the number, &Body=,
  the prefix and the message, and one less than the number of bytes written after the
  empty line, which end with the line break of \<open>println\<close>.
\<close>

theorem content_length_off_by_one:
  "content_length sec prefix pushMessage =
     length (''To=+'' @ To sec @ ''&From=+'' @ From sec @ ''&Body='' @ prefix @ pushMessage) + 1 \<and>
   length (request_body sec prefix pushMessage) = content_length sec prefix pushMessage + 1 \<and>
   snd (sendPush sec (net\<lparr>connects := True\<rparr>) prefix pushMessage) =
     request_head sec prefix pushMessage @ request_body sec prefix pushMessage \<and>
   content_length some_secrets ''Security system '' ''initializing'' = 68 \<and>
   length (request_body some_secrets ''Security system '' ''initializing'') = 69"
  by (simp add: content_length_def request_body_def CRLF_def sendPush_def Let_def some_secrets_def)

text \<open>
  C9: the callback reads the first byte of the buffer the client hands over. If it is a
  digit from 1 to 8 it selects the partition of that number and the next byte of the buffer
  is the command; any other first byte is itself the command, for partition 1. The command D
  writes the access code to the panel, once, to the selected partition, if that partition
  is armed or in exit delay when the command arrives, and writes nothing otherwise; no
  other command writes anything but the arming keys s and w. This holds for every buffer
  and every length of the message: the callback does not look at the length, so after a
  message that is a lone digit the command is the byte the buffer holds next.
\<close>

theorem disarm_command:
  "(0x31 \<le> payload 0 \<and> payload 0 \<le> 0x38 \<and> payload 1 = 0x44 \<longrightarrow>
      mqttCallback accessCode payload len s =
        (if armed s ! unat (payload 0 - 0x31) \<or> exitDelay s ! unat (payload 0 - 0x31)
         then s\<lparr>writePartition := payload 0 - 0x30,
                trace := trace s @ [PanelWrite (payload 0 - 0x30) accessCode]\<rparr>
         else s)) \<and>
   (payload 0 = 0x44 \<longrightarrow>
      mqttCallback accessCode payload len s =
        (if armed s ! 0 \<or> exitDelay s ! 0
         then s\<lparr>writePartition := 1, trace := trace s @ [PanelWrite 1 accessCode]\<rparr>
         else s)) \<and>
   (0x31 \<le> payload 0 \<and> payload 0 \<le> 0x38 \<and> payload 1 \<noteq> 0x44 \<longrightarrow>
      mqttCallback accessCode payload len s = s \<or>
      mqttCallback accessCode payload len s =
        s\<lparr>writePartition := payload 0 - 0x30,
          trace := trace s @ [PanelWrite (payload 0 - 0x30) ''s'']\<rparr> \<or>
      mqttCallback accessCode payload len s =
        s\<lparr>writePartition := payload 0 - 0x30,
          trace := trace s @ [PanelWrite (payload 0 - 0x30) ''w'']\<rparr>) \<and>
   (\<not> (0x31 \<le> payload 0 \<and> payload 0 \<le> 0x38) \<and> payload 0 \<noteq> 0x44 \<longrightarrow>
      mqttCallback accessCode payload len s = s \<or>
      mqttCallback accessCode payload len s =
        s\<lparr>writePartition := 1, trace := trace s @ [PanelWrite 1 ''s'']\<rparr> \<or>
      mqttCallback accessCode payload len s =
        s\<lparr>writePartition := 1, trace := trace s @ [PanelWrite 1 ''w'']\<rparr>)"
proof (intro conjI impI)
  assume "0x31 \<le> payload 0 \<and> payload 0 \<le> 0x38 \<and> payload 1 = 0x44"
  then have d: "0x31 \<le> payload 0" "payload 0 \<le> 0x38" and c: "payload 1 = 0x44" by blast+
  have n: "(0x44 :: byte) \<noteq> 0x53" "(0x44 :: byte) \<noteq> 0x41" by simp_all
  show "mqttCallback accessCode payload len s =
        (if armed s ! unat (payload 0 - 0x31) \<or> exitDelay s ! unat (payload 0 - 0x31)
         then s\<lparr>writePartition := payload 0 - 0x30,
                trace := trace s @ [PanelWrite (payload 0 - 0x30) accessCode]\<rparr>
         else s)"
    unfolding mqttCallback_digit [of payload, OF d] by (simp only: c n simp_thms if_False)
next
  assume c: "payload 0 = 0x44"
  have p: "\<not> (0x31 \<le> payload 0 \<and> payload 0 \<le> 0x38)" unfolding c by simp
  have n: "(0x44 :: byte) \<noteq> 0x53" "(0x44 :: byte) \<noteq> 0x41" by simp_all
  show "mqttCallback accessCode payload len s =
        (if armed s ! 0 \<or> exitDelay s ! 0
         then s\<lparr>writePartition := 1, trace := trace s @ [PanelWrite 1 accessCode]\<rparr>
         else s)"
    unfolding mqttCallback_plain [of payload, OF p] by (simp only: c n simp_thms if_False)
next
  assume "0x31 \<le> payload 0 \<and> payload 0 \<le> 0x38 \<and> payload 1 \<noteq> 0x44"
  then have d: "0x31 \<le> payload 0" "payload 0 \<le> 0x38" and n: "payload 1 \<noteq> 0x44" by blast+
  show "mqttCallback accessCode payload len s = s \<or>
      mqttCallback accessCode payload len s =
        s\<lparr>writePartition := payload 0 - 0x30,
          trace := trace s @ [PanelWrite (payload 0 - 0x30) ''s'']\<rparr> \<or>
      mqttCallback accessCode payload len s =
        s\<lparr>writePartition := payload 0 - 0x30,
          trace := trace s @ [PanelWrite (payload 0 - 0x30) ''w'']\<rparr>"
    by (rule arm_or_nothing) (simp only: mqttCallback_digit [of payload, OF d] n simp_thms)
next
  assume "\<not> (0x31 \<le> payload 0 \<and> payload 0 \<le> 0x38) \<and> payload 0 \<noteq> 0x44"
  then have d: "\<not> (0x31 \<le> payload 0 \<and> payload 0 \<le> 0x38)" and n: "payload 0 \<noteq> 0x44" by blast+
  show "mqttCallback accessCode payload len s = s \<or>
      mqttCallback accessCode payload len s =
        s\<lparr>writePartition := 1, trace := trace s @ [PanelWrite 1 ''s'']\<rparr> \<or>
      mqttCallback accessCode payload len s =
        s\<lparr>writePartition := 1, trace := trace s @ [PanelWrite 1 ''w'']\<rparr>"
    by (rule arm_or_nothing) (simp only: mqttCallback_plain [of payload, OF d] n simp_thms)
qed

text \<open>
  The message 2D for the armed partition 2, and the message 2 alone, of length one, in a
  buffer that holds a D after it: both write the access code to partition 2.
\<close>

theorem disarm_command_witness:
  "mqttCallback ''1234'' (bytes [0x32, 0x44]) 2 armed_2 =
     armed_2\<lparr>writePartition := 2, trace := [PanelWrite 2 ''1234'']\<rparr> \<and>
   mqttCallback ''1234'' (bytes [0x32, 0x44]) 1 armed_2 =
     armed_2\<lparr>writePartition := 2, trace := [PanelWrite 2 ''1234'']\<rparr>"
proof -
  have b: "bytes [0x32, 0x44] 0 = 0x32" "bytes [0x32, 0x44] 1 = 0x44"
    by (simp_all add: bytes_def)
  have h: "0x31 \<le> (0x32 :: byte) \<and> (0x32 :: byte) \<le> 0x38 \<and> (0x44 :: byte) = 0x44"
    by simp
  have a: "armed armed_2 ! unat ((0x32 :: byte) - 0x31)"
    by (simp add: armed_2_def idle_def)
  have t: "trace armed_2 = []"
    by (simp add: armed_2_def idle_def)
  have w: "(0x32 :: byte) - 0x30 = 2"
    by simp
  have r: "mqttCallback ''1234'' (bytes [0x32, 0x44]) len armed_2 =
        (if armed armed_2 ! unat ((0x32 :: byte) - 0x31) \<or> exitDelay armed_2 ! unat ((0x32 :: byte) - 0x31)
         then armed_2\<lparr>writePartition := 0x32 - 0x30,
                trace := trace armed_2 @ [PanelWrite (0x32 - 0x30) ''1234'']\<rparr>
         else armed_2)" for len
    using disarm_command [of "bytes [0x32, 0x44]" "''1234''" len armed_2] h
    unfolding b by blast
  show ?thesis
    unfolding r by (simp only: a t w simp_thms if_True append_Nil)
qed

text \<open>
  C10: the copies do not stay within the arrays. For every topic, partition and suffix
  \<open>publishState\<close> writes past the end of one of its arrays: \<open>publishTopic\<close> has room for
  the topic and its NUL and none for the digit. For partition 1 on the partition topic it
  needs 19 bytes of the 18. The topic array of the zone scan holds a zone number of one
  digit, as for zone 5, and is one byte short for two digits, as for zone 10.
\<close>

theorem destination_buffers_overrun:
  "isl (publishState_buffers sourceTopic p sourceSuffix) \<and>
   publishState_buffers mqttPartitionTopic 0 ''A'' = Inl (Overrun 19 18) \<and>
   zone_topic_buffers 0 4 = Inr ''dsc/Get/Zone5'' \<and>
   zone_topic_buffers 1 1 = Inl (Overrun 15 14)"
proof -
  have "isl (publishState_buffers sourceTopic p sourceSuffix)"
  proof (cases "itoa_into 2 (p + 1)")
    case (Inl e)
    then show ?thesis by (simp add: publishState_buffers_def)
  next
    case (Inr partitionNumber)
    then have "partitionNumber = itoa (p + 1)"
      by (simp add: itoa_into_def strcpy_into_def split: if_splits)
    then have "0 < length partitionNumber"
      using length_itoa_pos [of "p + 1"] by simp
    then have "isl (strcat_into (length sourceTopic + 1) sourceTopic partitionNumber)"
      by (rule strcat_into_full)
    then show ?thesis
      using Inr by (auto simp add: publishState_buffers_def strcpy_into_def split: sum.splits)
  qed
  moreover have "publishState_buffers mqttPartitionTopic 0 ''A'' = Inl (Overrun 19 18)"
    by (simp add: publishState_buffers_def itoa_into_def strcpy_into_def strcat_into_def
          itoa_1 mqttPartitionTopic_def)
  moreover have "zone_topic_buffers 0 4 = Inr ''dsc/Get/Zone5''"
    by (simp add: zone_topic_buffers_def itoa_into_def strcpy_into_def strcat_into_def
          itoa.simps digit_def mqttZoneTopic_def)
  moreover have "zone_topic_buffers 1 1 = Inl (Overrun 15 14)"
    by (simp add: zone_topic_buffers_def itoa_into_def strcpy_into_def strcat_into_def
          itoa.simps digit_def mqttZoneTopic_def)
  ultimately show ?thesis by blast
qed

end
